theory Spec2Isabelle
  imports Complex_Main "HOL-Library.Sublist" "HOL-Library.Product_Lexorder"
begin

section \<open>Strings of the program\<close>

text \<open>
  A Python \<open>str\<close> is a sequence of code points. The model takes the strings whose code
  points lie in U+0000 .. U+00FF: a \<^typ>\<open>string\<close> is a list of 8-bit characters and
  \<open>code_point\<close> reads a character as its code point. The character classes below are
  those of Python 3 on that range: \<open>str.isspace\<close> and the regular expression class
  \<open>\s\<close> agree there, \<open>\d\<close> is the ASCII digits, \<open>\w\<close> is \<open>str.isalnum\<close> plus the
  underscore, and \<open>str.lower\<close> maps one character to one character.
\<close>

definition code_point :: "char \<Rightarrow> nat" where
  "code_point c = of_char c"

definition isspace :: "char \<Rightarrow> bool" where
  "isspace c = (code_point c \<in> {9, 10, 11, 12, 13, 28, 29, 30, 31, 32, 133, 160})"

definition isdigit :: "char \<Rightarrow> bool" where
  "isdigit c = (48 \<le> code_point c \<and> code_point c \<le> 57)"

definition isword :: "char \<Rightarrow> bool" where
  "isword c =
     (let n = code_point c
      in (48 \<le> n \<and> n \<le> 57) \<or> (65 \<le> n \<and> n \<le> 90) \<or> n = 95 \<or> (97 \<le> n \<and> n \<le> 122)
         \<or> n \<in> {170, 178, 179, 181, 185, 186, 188, 189, 190}
         \<or> (192 \<le> n \<and> n \<le> 214) \<or> (216 \<le> n \<and> n \<le> 246) \<or> (248 \<le> n \<and> n \<le> 255))"

definition lower_char :: "char \<Rightarrow> char" where
  "lower_char c =
     (let n = code_point c
      in if (65 \<le> n \<and> n \<le> 90) \<or> (192 \<le> n \<and> n \<le> 222 \<and> n \<noteq> 215)
         then char_of (n + 32) else c)"

text \<open>\<open>s.lower()\<close>\<close>

definition lower :: "string \<Rightarrow> string" where
  "lower s = map lower_char s"

text \<open>\<open>s.strip()\<close>: leading and trailing whitespace removed.\<close>

definition lstrip :: "string \<Rightarrow> string" where
  "lstrip s = dropWhile isspace s"

definition rstrip :: "string \<Rightarrow> string" where
  "rstrip s = rev (dropWhile isspace (rev s))"

definition strip :: "string \<Rightarrow> string" where
  "strip s = rstrip (lstrip s)"

text \<open>\<open>s.rstrip(chars)\<close> and \<open>s.strip(chars)\<close>: characters of \<open>chars\<close> removed at the end, or
  at both ends.\<close>

definition rstrip_chars :: "string \<Rightarrow> string \<Rightarrow> string" where
  "rstrip_chars chars s = rev (dropWhile (\<lambda>c. c \<in> set chars) (rev s))"

definition strip_chars :: "string \<Rightarrow> string \<Rightarrow> string" where
  "strip_chars chars s = rstrip_chars chars (dropWhile (\<lambda>c. c \<in> set chars) s)"

text \<open>\<open>s.startswith(p)\<close>\<close>

definition startswith :: "string \<Rightarrow> string \<Rightarrow> bool" where
  "startswith s p = (take (length p) s = p)"

text \<open>\<open>s[i:j]\<close> for indices \<open>0 \<le> i\<close>, \<open>0 \<le> j\<close>: empty when \<open>j \<le> i\<close>.\<close>

definition slice :: "nat \<Rightarrow> nat \<Rightarrow> string \<Rightarrow> string" where
  "slice i j s = take (j - i) (drop i s)"


section \<open>The comparison normalization\<close>

text \<open>
  \<open>re.sub(r'[^\w\s-]', ' ', text)\<close>: every character that is neither a word character nor
  whitespace nor a hyphen is replaced by one space.
\<close>

definition sub_punctuation :: "string \<Rightarrow> string" where
  "sub_punctuation text =
     map (\<lambda>c. if isword c \<or> isspace c \<or> c = CHR ''-'' then c else CHR '' '') text"

text \<open>
  \<open>re.sub(r'\s+', ' ', text)\<close>: scanning from the left, every maximal run of whitespace is
  replaced by one space.
\<close>

function sub_spaces :: "string \<Rightarrow> string" where
  "sub_spaces [] = []"
| "sub_spaces (c # cs) =
     (if isspace c then CHR '' '' # sub_spaces (dropWhile isspace cs)
      else c # sub_spaces cs)"
  by pat_completeness auto
termination
  by (relation "measure length") (auto simp: less_Suc_eq_le length_dropWhile_le)

definition clean_text_for_comparison :: "string \<Rightarrow> string" where
  "clean_text_for_comparison text =
     (let text1 = sub_punctuation text;
          text2 = sub_spaces text1
      in strip (lower text2))"

text \<open>
  The normalization in other words. A token is a maximal run of word characters and
  hyphens; \<open>tokens\<close> lists the tokens of a string from left to right and \<open>join_spaces\<close>
  puts one space between consecutive strings.
\<close>

definition is_token_char :: "char \<Rightarrow> bool" where
  "is_token_char c = (isword c \<or> c = CHR ''-'')"

function tokens :: "string \<Rightarrow> string list" where
  "tokens [] = []"
| "tokens (c # cs) =
     (if is_token_char c
      then (c # takeWhile is_token_char cs) # tokens (dropWhile is_token_char cs)
      else tokens cs)"
  by pat_completeness auto
termination
  by (relation "measure length") (auto simp: less_Suc_eq_le length_dropWhile_le)

fun join_spaces :: "string list \<Rightarrow> string" where
  "join_spaces [] = []"
| "join_spaces [w] = w"
| "join_spaces (w # v # ws) = w @ CHR '' '' # join_spaces (v # ws)"

text \<open>
  The normalization with the characters removed instead of replaced: the same steps as
  \<open>clean_text_for_comparison\<close>, with a filter in the place of the first substitution.
\<close>

definition clean_text_removing :: "string \<Rightarrow> string" where
  "clean_text_removing text =
     strip (lower (sub_spaces (filter (\<lambda>c. isword c \<or> isspace c \<or> c = CHR ''-'') text)))"

subsection \<open>Character classes\<close>
lemma code_point_char_of: "code_point (char_of (n::nat)) = n mod 256"
  by (simp add: code_point_def)

lemma code_point_lower_char:
  "code_point (lower_char c) =
     (if (65 \<le> code_point c \<and> code_point c \<le> 90) \<or>
         (192 \<le> code_point c \<and> code_point c \<le> 222 \<and> code_point c \<noteq> 215)
      then code_point c + 32 else code_point c)"
  by (auto simp: lower_char_def Let_def code_point_char_of)


lemma code_point_hyphen: "code_point (CHR ''-'') = 45"
  by (simp add: code_point_def)

lemma isspace_not_word: "isspace c \<Longrightarrow> \<not> isword c"
proof
  assume "isspace c" and w: "isword c"
  then have "code_point c \<in> {9, 10, 11, 12, 13, 28, 29, 30, 31, 32, 133, 160}"
    by (simp add: isspace_def)
  then consider "code_point c \<le> 32" | "code_point c = 133" | "code_point c = 160"
    by auto
  then show False
    using w by cases (simp_all add: isword_def Let_def)
qed

lemma isspace_not_token: "isspace c \<Longrightarrow> \<not> is_token_char c"
proof
  assume sp: "isspace c" and "is_token_char c"
  then have "c = CHR ''-''" by (simp add: is_token_char_def isspace_not_word)
  with sp show False by (simp add: isspace_def code_point_def)
qed


lemma lower_char_space: "lower_char (CHR '' '') = CHR '' ''"
  by (simp add: lower_char_def code_point_def)

lemma isspace_space: "isspace (CHR '' '')"
  by (simp add: isspace_def code_point_def)

lemma token_lower_not_space: "is_token_char c \<Longrightarrow> \<not> isspace (lower_char c)"
proof
  assume tok: "is_token_char c" and sp: "isspace (lower_char c)"
  show False
  proof (cases "(65 \<le> code_point c \<and> code_point c \<le> 90) \<or>
         (192 \<le> code_point c \<and> code_point c \<le> 222 \<and> code_point c \<noteq> 215)")
    case True
    then have "code_point (lower_char c) = code_point c + 32"
      by (simp add: code_point_lower_char)
    with sp have "code_point c + 32 \<in> {9, 10, 11, 12, 13, 28, 29, 30, 31, 32, 133, 160}"
      by (simp add: isspace_def)
    then have "code_point c \<in> {0, 101, 128}" by auto
    with True show False by auto
  next
    case False
    then have "code_point (lower_char c) = code_point c"
      by (simp add: code_point_lower_char)
    with sp have "isspace c" by (simp add: isspace_def)
    with tok show False by (simp add: isspace_not_token)
  qed
qed




lemma tokens_nonempty: "w \<in> set (tokens s) \<Longrightarrow> w \<noteq> [] \<and> (\<forall>c\<in>set w. is_token_char c)"
proof (induction s rule: tokens.induct)
  case 1
  then show ?case by simp
next
  case (2 c cs)
  show ?case
  proof (cases "is_token_char c")
    case True
    with 2(3) have "w = c # takeWhile is_token_char cs \<or> w \<in> set (tokens (dropWhile is_token_char cs))"
      by simp
    then show ?thesis
    proof
      assume w: "w = c # takeWhile is_token_char cs"
      have "\<forall>d\<in>set (takeWhile is_token_char cs). is_token_char d"
        by (blast dest: set_takeWhileD)
      with w True show ?thesis by simp
    next
      assume "w \<in> set (tokens (dropWhile is_token_char cs))"
      with 2(1) True show ?thesis by blast
    qed
  next
    case False
    with 2(3) have "w \<in> set (tokens cs)" by simp
    with 2(2) False show ?thesis by blast
  qed
qed

lemma tokens_dropWhile_space: "tokens (dropWhile isspace s) = tokens s"
  by (induction s) (auto simp: isspace_not_token)

lemma tokens_eq_Nil_no_space:
  "tokens s = [] \<Longrightarrow> s = [] \<or> \<not> is_token_char (hd s)"
  by (cases s) (auto split: if_splits)

lemma tokens_Cons_token:
  "is_token_char c \<Longrightarrow>
   tokens (c # cs) =
     (if cs \<noteq> [] \<and> is_token_char (hd cs) then (c # hd (tokens cs)) # tl (tokens cs)
      else [c] # tokens cs)"
  by (cases cs) auto

lemma tokens_sub_punctuation: "tokens (sub_punctuation s) = tokens s"
proof (induction s rule: tokens.induct)
  case 1
  then show ?case by (simp add: sub_punctuation_def)
next
  case (2 c cs)
  let ?f = "\<lambda>c. if isword c \<or> isspace c \<or> c = CHR ''-'' then c else CHR '' ''"
  have tokf: "is_token_char (?f d) = is_token_char d" for d
    using isspace_not_token [OF isspace_space] by (auto simp: is_token_char_def)
  have idf: "is_token_char d \<Longrightarrow> ?f d = d" for d
    by (auto simp: is_token_char_def)
  have comp: "is_token_char \<circ> ?f = is_token_char"
    using tokf by (auto simp: fun_eq_iff)
  have tw: "takeWhile is_token_char (map ?f cs) = takeWhile is_token_char cs"
  proof -
    have "takeWhile is_token_char (map ?f cs) = map ?f (takeWhile is_token_char cs)"
      by (simp add: takeWhile_map comp)
    also have "\<dots> = takeWhile is_token_char cs"
      using idf by (induction cs) auto
    finally show ?thesis .
  qed
  have dw: "dropWhile is_token_char (map ?f cs) = map ?f (dropWhile is_token_char cs)"
    by (simp add: dropWhile_map comp)
  show ?case
  proof (cases "is_token_char c")
    case True
    with 2 have "tokens (map ?f (dropWhile is_token_char cs)) = tokens (dropWhile is_token_char cs)"
      by (simp add: sub_punctuation_def)
    with True tw dw idf [OF True] show ?thesis
      by (simp add: sub_punctuation_def)
  next
    case False
    with 2 have "tokens (map ?f cs) = tokens cs" by (simp add: sub_punctuation_def)
    with False tokf [of c] show ?thesis
      by (simp add: sub_punctuation_def)
  qed
qed


subsection \<open>Joining tokens\<close>

definition spaceless :: "string list \<Rightarrow> bool" where
  "spaceless ws = (\<forall>w\<in>set ws. w \<noteq> [] \<and> (\<forall>c\<in>set w. \<not> isspace c))"

lemma lower_join_spaces: "lower (join_spaces ws) = join_spaces (map lower ws)"
  by (induction ws rule: join_spaces.induct) (simp_all add: lower_def lower_char_space)

lemma join_spaces_Cons: "join_spaces (w # ws) = (if ws = [] then w else w @ CHR '' '' # join_spaces ws)"
  by (cases ws) simp_all

lemma join_spaces_ends:
  "spaceless ws \<Longrightarrow> ws \<noteq> [] \<Longrightarrow>
   join_spaces ws \<noteq> [] \<and> \<not> isspace (hd (join_spaces ws)) \<and> \<not> isspace (last (join_spaces ws))"
proof (induction ws rule: join_spaces.induct)
  case 1
  then show ?case by simp
next
  case (2 w)
  then show ?case by (simp add: spaceless_def)
next
  case (3 w v ws)
  then have "spaceless (v # ws)" and w: "w \<noteq> []" "\<not> isspace (hd w)"
    by (auto simp: spaceless_def)
  with 3 have "join_spaces (v # ws) \<noteq> []" "\<not> isspace (last (join_spaces (v # ws)))"
    by simp_all
  with w show ?case by simp
qed

lemma spaceless_lower_tokens: "spaceless (map lower (tokens s))"
  unfolding spaceless_def lower_def
  using tokens_nonempty token_lower_not_space by fastforce

subsection \<open>Trimming\<close>

lemma strip_sandwich:
  assumes pre: "\<forall>c\<in>set pre. isspace c" and post: "\<forall>c\<in>set post. isspace c"
    and mid: "mid = [] \<or> (\<not> isspace (hd mid) \<and> \<not> isspace (last mid))"
  shows "strip (pre @ mid @ post) = mid"
proof (cases "mid = []")
  case True
  with pre post have "\<forall>c\<in>set (pre @ mid @ post). isspace c"
    by auto
  then have "lstrip (pre @ mid @ post) = []"
    unfolding lstrip_def by (metis dropWhile_eq_Nil_conv)
  with True show ?thesis by (simp add: strip_def rstrip_def)
next
  case False
  with mid have h: "\<not> isspace (hd mid)" and l: "\<not> isspace (last mid)" by simp_all
  from False h have "dropWhile isspace (mid @ post) = mid @ post"
    by (cases mid) simp_all
  moreover have "dropWhile isspace (pre @ mid @ post) = dropWhile isspace (mid @ post)"
    by (rule dropWhile_append2) (use pre in blast)
  ultimately have "lstrip (pre @ mid @ post) = mid @ post"
    by (simp add: lstrip_def)
  moreover have "dropWhile isspace (rev post @ rev mid) = rev mid"
  proof -
    have "dropWhile isspace (rev post @ rev mid) = dropWhile isspace (rev mid)"
      by (rule dropWhile_append2) (use post in simp)
    also have "\<dots> = rev mid"
      using False l by (cases "rev mid") (simp_all add: last_rev [symmetric])
    finally show ?thesis .
  qed
  ultimately show ?thesis by (simp add: strip_def rstrip_def)
qed

subsection \<open>Collapsing whitespace\<close>

lemma sub_spaces_shape:
  "(\<forall>c\<in>set s. is_token_char c \<or> isspace c) \<Longrightarrow>
   \<exists>post. (post = [] \<or> post = '' '') \<and> (tokens s = [] \<longrightarrow> post = []) \<and>
     sub_spaces s =
       (if s \<noteq> [] \<and> isspace (hd s) then '' '' else []) @ join_spaces (tokens s) @ post"
proof (induction s rule: sub_spaces.induct)
  case 1
  then show ?case by simp
next
  case (2 c cs)
  show ?case
  proof (cases "isspace c")
    case True
    let ?r = "dropWhile isspace cs"
    have "\<forall>d\<in>set ?r. is_token_char d \<or> isspace d"
      using 2(3) by (auto dest: set_dropWhileD)
    with 2(1) True obtain post where post: "post = [] \<or> post = '' ''" "tokens ?r = [] \<longrightarrow> post = []"
      and eq: "sub_spaces ?r = (if ?r \<noteq> [] \<and> isspace (hd ?r) then '' '' else []) @ join_spaces (tokens ?r) @ post"
      by blast
    have "\<not> (?r \<noteq> [] \<and> isspace (hd ?r))"
      using hd_dropWhile [of isspace cs] by auto
    with eq have "sub_spaces ?r = join_spaces (tokens ?r) @ post" by simp
    moreover have "tokens (c # cs) = tokens ?r"
      using True by (simp add: isspace_not_token tokens_dropWhile_space)
    ultimately show ?thesis using True post by simp
  next
    case False
    with 2(3) have tok: "is_token_char c" by simp
    have "\<forall>d\<in>set cs. is_token_char d \<or> isspace d" using 2(3) by simp
    with 2(2) False obtain post where post: "post = [] \<or> post = '' ''" "tokens cs = [] \<longrightarrow> post = []"
      and eq: "sub_spaces cs = (if cs \<noteq> [] \<and> isspace (hd cs) then '' '' else []) @ join_spaces (tokens cs) @ post"
      by blast
    show ?thesis
    proof (cases "cs \<noteq> [] \<and> is_token_char (hd cs)")
      case True
      then have ne: "tokens cs \<noteq> []" by (cases cs) auto
      from True have nsp: "\<not> isspace (hd cs)" using isspace_not_token by blast
      from True tok have t: "tokens (c # cs) = (c # hd (tokens cs)) # tl (tokens cs)"
        by (simp add: tokens_Cons_token del: tokens.simps)
      have "join_spaces ((c # hd (tokens cs)) # tl (tokens cs)) = c # join_spaces (tokens cs)"
        using ne by (cases "tokens cs") (simp_all add: join_spaces_Cons)
      with eq nsp t False post show ?thesis by simp
    next
      case nt: False
      with tok have t: "tokens (c # cs) = [c] # tokens cs"
        by (metis tokens_Cons_token)
      show ?thesis
      proof (cases "cs = []")
        case True
        with False show ?thesis using tok by simp
      next
        case cne: False
        with nt 2(3) have sp: "isspace (hd cs)" by (cases cs) auto
        show ?thesis
        proof (cases "tokens cs = []")
          case True
          with post have "post = []" by simp
          with eq sp cne True t False show ?thesis by simp
        next
          case tne: False
          with eq sp cne t False post show ?thesis by (simp add: join_spaces_Cons)
        qed
      qed
    qed
  qed
qed

lemma sub_punctuation_alphabet: "\<forall>c\<in>set (sub_punctuation s). is_token_char c \<or> isspace c"
  by (auto simp: sub_punctuation_def is_token_char_def isspace_space)

lemma clean_text_tokens:
  "clean_text_for_comparison text = join_spaces (map lower (tokens text))"
proof -
  let ?s = "sub_punctuation text"
  let ?J = "join_spaces (map lower (tokens text))"
  obtain post where post: "post = [] \<or> post = '' ''"
    and eq: "sub_spaces ?s =
       (if ?s \<noteq> [] \<and> isspace (hd ?s) then '' '' else []) @ join_spaces (tokens ?s) @ post"
    using sub_spaces_shape [OF sub_punctuation_alphabet] by blast
  let ?pre = "if ?s \<noteq> [] \<and> isspace (hd ?s) then '' '' else []"
  have "lower (sub_spaces ?s) = ?pre @ ?J @ post"
  proof -
    have "lower (sub_spaces ?s) = lower ?pre @ lower (join_spaces (tokens text)) @ lower post"
      by (simp add: eq tokens_sub_punctuation lower_def)
    moreover have "lower ?pre = ?pre" by (simp add: lower_def lower_char_space)
    moreover have "lower post = post" using post by (auto simp: lower_def lower_char_space)
    ultimately show ?thesis by (simp add: lower_join_spaces)
  qed
  moreover have "strip (?pre @ ?J @ post) = ?J"
  proof (rule strip_sandwich)
    show "\<forall>c\<in>set ?pre. isspace c" by (simp add: isspace_space)
    show "\<forall>c\<in>set post. isspace c" using post by (auto simp: isspace_space)
    show "?J = [] \<or> (\<not> isspace (hd ?J) \<and> \<not> isspace (last ?J))"
      using join_spaces_ends [OF spaceless_lower_tokens [of "text"]]
      by (cases "tokens text = []") simp_all
  qed
  ultimately show ?thesis by (simp add: clean_text_for_comparison_def Let_def)
qed

subsection \<open>What the normalization returns\<close>

text \<open>
  C2, as the claim words it: the characters that are neither word characters nor
  whitespace nor hyphens are removed. The code replaces each of them by a space, so a
  punctuation character between two letters leaves a space between them.
\<close>

theorem clean_text_removing_counterexample:
  "clean_text_for_comparison ''a:b'' = ''a b'' \<and> clean_text_removing ''a:b'' = ''ab''"
  by code_simp

text \<open>
  C2, amended. For every input string, \<open>clean_text_for_comparison\<close> returns the tokens of
  the input (its maximal runs of word characters and hyphens), lower-cased, in their order
  and joined by single spaces. Every other character, punctuation as well as whitespace,
  separates tokens: it is replaced by a space, runs of whitespace are collapsed to one
  space, and no whitespace is left at either end.
\<close>

theorem clean_text_for_comparison_tokens:
  "clean_text_for_comparison text = join_spaces (map lower (tokens text))"
  by (rule clean_text_tokens)


section \<open>The entry extractor\<close>

record publication =
  Year :: string
  Authors :: string
  Title :: string
  Venue :: string

text \<open>
  \<open>re.match(r'(\d{4})\s*-\s*', s)\<close>: four digits, whitespace, a hyphen, whitespace, at the
  start of \<open>s\<close>. A hyphen is not whitespace, so the greedy \<open>\s*\<close> never gives a character
  back. The result is group 1 and the end of the match.
\<close>

definition match_year :: "string \<Rightarrow> (string \<times> nat) option" where
  "match_year s =
     (if 4 \<le> length s \<and> list_all isdigit (take 4 s)
      then (case dropWhile isspace (drop 4 s) of
              [] \<Rightarrow> None
            | c # rest \<Rightarrow>
                if c = CHR ''-''
                then Some (take 4 s, length s - length (dropWhile isspace rest))
                else None)
      else None)"

text \<open>
  \<open>re.split(r'(?=\d{4}\s*-\s*)', text)\<close>: the pattern is a lookahead, so every match is
  empty and the text is cut at every position where the year marker starts, position 0
  included (the piece before it is then the empty string). \<open>cur\<close> is the piece being
  collected.
\<close>

fun split_scan :: "string \<Rightarrow> string \<Rightarrow> string list" where
  "split_scan cur [] = [cur]"
| "split_scan cur (c # cs) =
     (if match_year (c # cs) \<noteq> None then cur # split_scan [c] cs
      else split_scan (cur @ [c]) cs)"

definition split_entries :: "string \<Rightarrow> string list" where
  "split_entries text = split_scan [] text"

text \<open>
  \<open>re.search(r'"([^"]+)"', s)\<close>: the leftmost double quote that is followed by at least one
  character other than a double quote and then by a double quote. The result is the start
  of the match, group 1 and the end of the match; \<open>pos\<close> is the position of the first
  character of the scanned rest.
\<close>

fun search_title :: "nat \<Rightarrow> string \<Rightarrow> (nat \<times> string \<times> nat) option" where
  "search_title pos [] = None"
| "search_title pos (c # cs) =
     (if c = CHR 0x22
      then (let inner = takeWhile (\<lambda>d. d \<noteq> CHR 0x22) cs;
                rest = dropWhile (\<lambda>d. d \<noteq> CHR 0x22) cs
            in if inner \<noteq> [] \<and> rest \<noteq> []
               then Some (pos, inner, pos + length inner + 2)
               else search_title (pos + 1) cs)
      else search_title (pos + 1) cs)"

text \<open>
  The body of the loop of \<open>extract_publications\<close> for one piece: \<open>None\<close> is \<open>continue\<close>,
  \<open>Some\<close> is the record appended. No statement of the body can raise on a string, so the
  \<open>except\<close> branch of the source is never taken.
\<close>

definition parse_entry :: "string \<Rightarrow> publication option" where
  "parse_entry raw =
     (let entry = strip raw
      in if entry = [] then None
         else (case match_year entry of
                 None \<Rightarrow> None
               | Some (year, start_pos) \<Rightarrow>
                   (case search_title 0 entry of
                      None \<Rightarrow> None
                    | Some (end_pos, grp, title_end) \<Rightarrow>
                        Some \<lparr>Year = year,
                              Authors = rstrip_chars ''.'' (strip (slice start_pos end_pos entry)),
                              Title = strip grp,
                              Venue = strip_chars ''.'' (strip (drop title_end entry))\<rparr>)))"

fun extract_loop :: "publication list \<Rightarrow> string list \<Rightarrow> publication list" where
  "extract_loop publications [] = publications"
| "extract_loop publications (entry # entries) =
     (case parse_entry entry of
        None \<Rightarrow> extract_loop publications entries
      | Some p \<Rightarrow> extract_loop (publications @ [p]) entries)"

definition extract_publications :: "string \<Rightarrow> publication list" where
  "extract_publications text = extract_loop [] (split_entries text)"

subsection \<open>Texts made of entries\<close>

text \<open>
  An entry as the specification describes it: it starts with the year marker and holds a
  double-quoted title. A well-formed entry, in addition, has no second place where a year
  marker starts.
\<close>

definition valid_entry :: "string \<Rightarrow> bool" where
  "valid_entry e = (match_year e \<noteq> None \<and> search_title 0 e \<noteq> None)"

definition well_formed_entry :: "string \<Rightarrow> bool" where
  "well_formed_entry e =
     (valid_entry e \<and> list_all (\<lambda>k. match_year (drop k e) = None) [1..<length e])"

text \<open>The string starts with four digits.\<close>

definition digits4 :: "string \<Rightarrow> bool" where
  "digits4 s = (4 \<le> length s \<and> list_all isdigit (take 4 s))"


lemma isdigit_not_space: "isdigit c \<Longrightarrow> \<not> isspace c"
  by (auto simp: isdigit_def isspace_def)

lemma isdigit_not_hyphen: "isdigit c \<Longrightarrow> c \<noteq> CHR ''-''"
  by (auto simp: isdigit_def code_point_def)

lemma hyphen_not_space: "\<not> isspace (CHR ''-'')"
  by (simp add: isspace_def code_point_def)

lemma quote_not_space: "\<not> isspace (CHR 0x22)"
  by (simp add: isspace_def code_point_def)


lemma match_year_Some_shape:
  assumes "match_year s = Some (y, n)"
  shows "\<exists>sp r. s = y @ sp @ CHR ''-'' # r \<and> length y = 4 \<and> list_all isdigit y \<and>
           (\<forall>c\<in>set sp. isspace c)"
proof -
  from assms have len: "4 \<le> length s" and dig: "list_all isdigit (take 4 s)"
    by (auto simp: match_year_def split: if_splits)
  from assms len dig obtain r where dw: "dropWhile isspace (drop 4 s) = CHR ''-'' # r"
    and y: "y = take 4 s"
    by (auto simp: match_year_def split: if_splits list.splits)
  let ?sp = "takeWhile isspace (drop 4 s)"
  have "s = take 4 s @ drop 4 s" by simp
  also have "drop 4 s = ?sp @ dropWhile isspace (drop 4 s)" by simp
  finally have "s = y @ ?sp @ CHR ''-'' # r" using dw y by simp
  moreover have "\<forall>c\<in>set ?sp. isspace c" by (blast dest: set_takeWhileD)
  moreover have "length y = 4" using y len by simp
  ultimately show ?thesis using dig y by blast
qed


lemma match_year_shape_Some:
  assumes "length y = 4" and "list_all isdigit y" and "\<forall>c\<in>set sp. isspace c"
  shows "\<exists>n. match_year (y @ sp @ CHR ''-'' # r) = Some (y, n)"
proof -
  have "dropWhile isspace (sp @ CHR ''-'' # r) = dropWhile isspace sp @ CHR ''-'' # r"
    by (rule dropWhile_append3) (rule hyphen_not_space)
  moreover have "dropWhile isspace sp = []"
    using assms(3) by (metis dropWhile_eq_Nil_conv)
  ultimately have "dropWhile isspace (sp @ CHR ''-'' # r) = CHR ''-'' # r" by simp
  with assms(1,2) show ?thesis by (simp add: match_year_def)
qed


lemma match_year_append:
  assumes "match_year e \<noteq> None"
  shows "match_year (e @ r) \<noteq> None"
proof -
  from assms obtain y n where "match_year e = Some (y, n)" by auto
  then obtain sp t where e: "e = y @ sp @ CHR ''-'' # t" and y: "length y = 4" "list_all isdigit y"
    and sp: "\<forall>c\<in>set sp. isspace c"
    using match_year_Some_shape by blast
  from match_year_shape_Some [OF y sp, of "t @ r"] e show ?thesis by auto
qed

lemma match_year_digits4: "match_year e \<noteq> None \<Longrightarrow> digits4 e"
  by (auto simp: match_year_def digits4_def split: if_splits)

lemma digits4_append: "digits4 e \<Longrightarrow> digits4 (e @ r)"
  by (simp add: digits4_def)


lemma digits4_drop_hd:
  assumes "digits4 r" and "k < 4"
  shows "\<exists>d t. drop k r = d # t \<and> isdigit d"
proof -
  from assms have "k < length r" by (simp add: digits4_def)
  then have "drop k r = r ! k # drop (Suc k) r" by (simp add: Cons_nth_drop_Suc)
  moreover have "isdigit (r ! k)"
  proof -
    have "k < length (take 4 r)" using assms by (simp add: digits4_def)
    then have "take 4 r ! k \<in> set (take 4 r)" by (rule nth_mem)
    moreover have "take 4 r ! k = r ! k" using assms by simp
    ultimately have "r ! k \<in> set (take 4 r)" by simp
    with assms(1) show ?thesis by (simp add: digits4_def list_all_iff)
  qed
  ultimately show ?thesis by blast
qed


lemma match_year_append_None:
  assumes ne: "x \<noteq> []" and none: "match_year x = None" and r: "r = [] \<or> digits4 r"
  shows "match_year (x @ r) = None"
proof (cases "r = []")
  case True
  with none show ?thesis by simp
next
  case False
  with r have d4: "digits4 r" by simp
  from digits4_drop_hd [OF d4, of 0] obtain d0 t0 where r0: "r = d0 # t0" "isdigit d0" by auto
  show ?thesis
  proof (cases "4 \<le> length x")
    case True
    then have tk: "take 4 (x @ r) = take 4 x" and dr: "drop 4 (x @ r) = drop 4 x @ r" by simp_all
    show ?thesis
    proof (cases "list_all isdigit (take 4 x)")
      case False
      with tk show ?thesis by (simp add: match_year_def)
    next
      case dig: True
      show ?thesis
      proof (cases "dropWhile isspace (drop 4 x)")
        case Nil
        then have "\<forall>c\<in>set (drop 4 x). isspace c" by (metis dropWhile_eq_Nil_conv)
        then have "dropWhile isspace (drop 4 x @ r) = dropWhile isspace r"
          by (intro dropWhile_append2) blast
        also have "\<dots> = d0 # t0" using r0 by (simp add: isdigit_not_space)
        finally show ?thesis using dr r0 by (simp add: match_year_def isdigit_not_hyphen)
      next
        case (Cons c rest)
        then have c: "c \<noteq> CHR ''-''" using none True dig by (auto simp: match_year_def)
        from Cons have "c \<in> set (drop 4 x)" "\<not> isspace c"
          using set_dropWhileD [of c isspace "drop 4 x"] hd_dropWhile [of isspace "drop 4 x"]
          by auto
        then have "dropWhile isspace (drop 4 x @ r) = dropWhile isspace (drop 4 x) @ r"
          by (rule dropWhile_append1)
        with Cons c dr show ?thesis by (simp add: match_year_def)
      qed
    qed
  next
    case False
    with ne have k: "4 - length x < 4" by (cases x) auto
    from False have "drop 4 (x @ r) = drop (4 - length x) r" by simp
    with digits4_drop_hd [OF d4 k] obtain d t where "drop 4 (x @ r) = d # t" "isdigit d" by auto
    then show ?thesis by (simp add: match_year_def isdigit_not_space isdigit_not_hyphen)
  qed
qed


lemma split_scan_skip:
  "(\<forall>k<length x. match_year (drop k x @ r) = None) \<Longrightarrow>
   split_scan cur (x @ r) = split_scan (cur @ x) r"
proof (induction x arbitrary: cur)
  case Nil
  then show ?case by simp
next
  case (Cons c cs)
  from Cons.prems have "match_year ((c # cs) @ r) = None" by force
  moreover have "\<forall>k<length cs. match_year (drop k cs @ r) = None"
  proof (intro allI impI)
    fix k assume "k < length cs"
    then have "Suc k < length (c # cs)" by simp
    with Cons.prems have "match_year (drop (Suc k) (c # cs) @ r) = None" by blast
    then show "match_year (drop k cs @ r) = None" by simp
  qed
  ultimately show ?case using Cons.IH [of "cur @ [c]"] by simp
qed


lemma well_formed_entry_inner:
  "well_formed_entry e \<Longrightarrow> 0 < k \<Longrightarrow> k < length e \<Longrightarrow> match_year (drop k e) = None"
  by (simp add: well_formed_entry_def list_all_iff)

lemma split_scan_entry:
  assumes wf: "well_formed_entry e" and r: "r = [] \<or> digits4 r"
  shows "split_scan cur (e @ r) = cur # split_scan e r"
proof -
  from wf have my: "match_year e \<noteq> None" by (simp add: well_formed_entry_def valid_entry_def)
  then have "e \<noteq> []" by (auto simp: match_year_def)
  then obtain c cs where e: "e = c # cs" by (cases e) auto
  from my have "match_year (c # cs @ r) \<noteq> None" using match_year_append [of e r] e by simp
  then have "split_scan cur (e @ r) = cur # split_scan [c] (cs @ r)" using e by simp
  moreover have "\<forall>k<length cs. match_year (drop k cs @ r) = None"
  proof (intro allI impI)
    fix k assume k: "k < length cs"
    then have "match_year (drop (Suc k) e) = None"
      using well_formed_entry_inner [OF wf, of "Suc k"] e by simp
    moreover have "drop (Suc k) e \<noteq> []" using k e by simp
    ultimately have "match_year (drop (Suc k) e @ r) = None"
      using r by (intro match_year_append_None)
    then show "match_year (drop k cs @ r) = None" using e by simp
  qed
  ultimately show ?thesis using split_scan_skip [of cs r "[c]"] e by simp
qed


lemma concat_entries_digits4:
  "list_all well_formed_entry es \<Longrightarrow> concat es = [] \<or> digits4 (concat es)"
proof (cases es)
  case Nil
  then show ?thesis by simp
next
  case (Cons e es')
  assume "list_all well_formed_entry es"
  with Cons have "match_year e \<noteq> None" by (simp add: well_formed_entry_def valid_entry_def)
  then have "digits4 (e @ concat es')" by (intro digits4_append match_year_digits4)
  with Cons show ?thesis by simp
qed

lemma split_scan_concat:
  "list_all well_formed_entry es \<Longrightarrow> split_scan cur (concat es) = cur # es"
proof (induction es arbitrary: cur)
  case Nil
  then show ?case by simp
next
  case (Cons e es)
  then have wf: "well_formed_entry e" and rest: "list_all well_formed_entry es" by simp_all
  from split_scan_entry [OF wf concat_entries_digits4 [OF rest]]
  have "split_scan cur (e @ concat es) = cur # split_scan e (concat es)" .
  with Cons.IH [OF rest] show ?case by simp
qed



definition has_quoted :: "string \<Rightarrow> bool" where
  "has_quoted s =
     (\<exists>pre inner post. s = pre @ CHR 0x22 # inner @ CHR 0x22 # post \<and> inner \<noteq> [] \<and>
        CHR 0x22 \<notin> set inner)"

lemma search_title_has_quoted: "search_title pos s \<noteq> None \<Longrightarrow> has_quoted s"
proof (induction pos s rule: search_title.induct)
  case (1 pos)
  then show ?case by simp
next
  case (2 pos c cs)
  let ?inner = "takeWhile (\<lambda>d. d \<noteq> CHR 0x22) cs"
  let ?rest = "dropWhile (\<lambda>d. d \<noteq> CHR 0x22) cs"
  show ?case
  proof (cases "c = CHR 0x22 \<and> ?inner \<noteq> [] \<and> ?rest \<noteq> []")
    case True
    then have "hd ?rest = CHR 0x22" using hd_dropWhile [of "\<lambda>d. d \<noteq> CHR 0x22" cs] by simp
    with True obtain post where "?rest = CHR 0x22 # post" by (cases ?rest) auto
    then have "cs = ?inner @ CHR 0x22 # post" by (metis takeWhile_dropWhile_id)
    then have "c # cs = [] @ CHR 0x22 # ?inner @ CHR 0x22 # post" using True by simp
    moreover have "CHR 0x22 \<notin> set ?inner" by (blast dest: set_takeWhileD)
    ultimately show ?thesis using True unfolding has_quoted_def by blast
  next
    case False
    with 2 have "has_quoted cs" by (auto simp: Let_def split: if_splits)
    then obtain pre inner post where "cs = pre @ CHR 0x22 # inner @ CHR 0x22 # post"
      "inner \<noteq> []" "CHR 0x22 \<notin> set inner"
      unfolding has_quoted_def by blast
    then have "c # cs = (c # pre) @ CHR 0x22 # inner @ CHR 0x22 # post" by simp
    with \<open>inner \<noteq> []\<close> \<open>CHR 0x22 \<notin> set inner\<close> show ?thesis unfolding has_quoted_def by blast
  qed
qed


lemma quoted_search_title:
  assumes "inner \<noteq> []" and "CHR 0x22 \<notin> set inner"
  shows "search_title pos (pre @ CHR 0x22 # inner @ CHR 0x22 # post) \<noteq> None"
proof (induction pre arbitrary: pos)
  case Nil
  have nq: "\<And>x. x \<in> set inner \<Longrightarrow> x \<noteq> CHR 0x22"
    using assms(2) by blast
  have "takeWhile (\<lambda>d. d \<noteq> CHR 0x22) (inner @ CHR 0x22 # post) = inner"
    using nq by simp
  moreover have "dropWhile (\<lambda>d. d \<noteq> CHR 0x22) (inner @ CHR 0x22 # post) = CHR 0x22 # post"
    using nq by simp
  ultimately show ?case using assms(1) by simp
next
  case (Cons c pre)
  then show ?case by (simp add: Let_def)
qed

lemma has_quoted_search_title: "has_quoted s \<Longrightarrow> search_title pos s \<noteq> None"
  unfolding has_quoted_def using quoted_search_title by blast


lemma rstrip_append_nonspace: "\<not> isspace c \<Longrightarrow> rstrip (xs @ c # ys) = xs @ c # rstrip ys"
proof -
  assume c: "\<not> isspace c"
  have "dropWhile isspace (rev ys @ c # rev xs) = dropWhile isspace (rev ys) @ c # rev xs"
    using c by (rule dropWhile_append3)
  then show ?thesis by (simp add: rstrip_def)
qed

lemma lstrip_append_nonspace:
  "\<not> isspace c \<Longrightarrow> lstrip (xs @ c # ys) = dropWhile isspace xs @ c # ys"
  unfolding lstrip_def by (rule dropWhile_append3)

lemma has_quoted_strip: "has_quoted s \<Longrightarrow> has_quoted (strip s)"
proof -
  assume "has_quoted s"
  then obtain pre inner post where s: "s = pre @ CHR 0x22 # inner @ CHR 0x22 # post"
    and inner: "inner \<noteq> []" "CHR 0x22 \<notin> set inner"
    unfolding has_quoted_def by blast
  let ?pre = "dropWhile isspace pre"
  have "lstrip s = ?pre @ CHR 0x22 # inner @ CHR 0x22 # post"
    using s lstrip_append_nonspace [OF quote_not_space] by simp
  then have "lstrip s = (?pre @ CHR 0x22 # inner) @ CHR 0x22 # post" by simp
  then have "strip s = (?pre @ CHR 0x22 # inner) @ CHR 0x22 # rstrip post"
    unfolding strip_def using rstrip_append_nonspace [OF quote_not_space] by simp
  then have "strip s = ?pre @ CHR 0x22 # inner @ CHR 0x22 # rstrip post" by simp
  with inner show ?thesis unfolding has_quoted_def by blast
qed


lemma match_year_strip:
  assumes "match_year e = Some (y, n)"
  shows "strip e \<noteq> [] \<and> (\<exists>m. match_year (strip e) = Some (y, m))"
proof -
  from match_year_Some_shape [OF assms] obtain sp r
    where e: "e = y @ sp @ CHR ''-'' # r" and y: "length y = 4" "list_all isdigit y"
      and sp: "\<forall>c\<in>set sp. isspace c"
    by blast
  from y obtain d ds where yd: "y = d # ds" "isdigit d" by (cases y) auto
  then have "lstrip e = e" using e by (simp add: lstrip_def isdigit_not_space)
  moreover have "rstrip e = y @ sp @ CHR ''-'' # rstrip r"
    using rstrip_append_nonspace [OF hyphen_not_space, of "y @ sp" r] e by simp
  ultimately have "strip e = y @ sp @ CHR ''-'' # rstrip r" by (simp add: strip_def)
  with match_year_shape_Some [OF y sp, of "rstrip r"] yd show ?thesis by auto
qed


lemma parse_entry_valid:
  assumes "valid_entry e"
  shows "\<exists>p. parse_entry e = Some p \<and> Year p = take 4 e"
proof -
  from assms obtain y n where my: "match_year e = Some (y, n)"
    by (auto simp: valid_entry_def)
  then have y: "y = take 4 e" by (auto simp: match_year_def split: if_splits list.splits)
  from match_year_strip [OF my] obtain m where ne: "strip e \<noteq> []"
    and mys: "match_year (strip e) = Some (y, m)" by blast
  from assms have "has_quoted (strip e)"
    by (intro has_quoted_strip search_title_has_quoted [of 0]) (simp add: valid_entry_def)
  then obtain q where "search_title 0 (strip e) = Some q"
    using has_quoted_search_title [of "strip e" 0] by auto
  with ne mys y show ?thesis
    by (cases q) (simp add: parse_entry_def Let_def)
qed

lemma parse_entry_Nil: "parse_entry [] = None"
  by (simp add: parse_entry_def strip_def lstrip_def rstrip_def)


lemma extract_loop_map_filter:
  "extract_loop publications entries = publications @ List.map_filter parse_entry entries"
  by (induction publications entries rule: extract_loop.induct)
    (simp_all split: option.splits)

lemma map_filter_valid:
  "list_all valid_entry es \<Longrightarrow>
   List.map_filter parse_entry es = map (\<lambda>e. the (parse_entry e)) es"
proof (induction es)
  case Nil
  then show ?case by simp
next
  case (Cons e es)
  then obtain p where "parse_entry e = Some p" using parse_entry_valid [of e] by auto
  with Cons show ?case by simp
qed


lemma extract_publications_concat:
  assumes "list_all well_formed_entry es"
  shows "extract_publications (concat es) = map (\<lambda>e. the (parse_entry e)) es"
proof -
  from assms have v: "list_all valid_entry es"
    by (simp add: list_all_iff well_formed_entry_def)
  have "extract_publications (concat es) = List.map_filter parse_entry ([] # es)"
    by (simp add: extract_publications_def split_entries_def split_scan_concat [OF assms]
        extract_loop_map_filter)
  also have "\<dots> = List.map_filter parse_entry es"
    by (simp add: parse_entry_Nil)
  finally show ?thesis using map_filter_valid [OF v] by simp
qed

lemma extract_publications_single:
  assumes "well_formed_entry e"
  shows "extract_publications e = [the (parse_entry e)]"
  using extract_publications_concat [of "[e]"] assms by simp

text \<open>
  C4, as the claim words it: every entry starts with the year marker and holds a
  double-quoted title. The text \<open>2020 - A. "War 1914 - 1918". J.\<close> is one such entry, but the
  split cuts it again at \<open>1914 - \<close>, neither piece holds a complete quoted title, and the
  extractor returns no record.
\<close>

theorem valid_entry_counterexample:
  \<open>valid_entry ''2020 - A. "War 1914 - 1918". J.'' \<and>
   extract_publications (concat [''2020 - A. "War 1914 - 1918". J.'']) = []\<close>
  by code_simp

text \<open>
  C4, amended. For every text that is the concatenation of \<open>N\<close> entries, each starting with
  the year marker, holding a double-quoted title and having no further place where a year
  marker starts, the extractor returns exactly \<open>N\<close> records in the order of the entries:
  the result is the concatenation of the results for the single entries, each of which is
  one record, and the years of the records are the first four characters of the entries.
\<close>

theorem extract_publications_entries:
  assumes "list_all well_formed_entry es"
  shows "length (extract_publications (concat es)) = length es
       \<and> extract_publications (concat es) = concat (map extract_publications es)
       \<and> map Year (extract_publications (concat es)) = map (take 4) es"
proof -
  from assms have v: "\<forall>e\<in>set es. well_formed_entry e" by (simp add: list_all_iff)
  have 1: "extract_publications (concat es) = map (\<lambda>e. the (parse_entry e)) es"
    by (rule extract_publications_concat [OF assms])
  have 2: "concat (map extract_publications es) = map (\<lambda>e. the (parse_entry e)) es"
    using v by (induction es) (simp_all add: extract_publications_single)
  have 3: "map (\<lambda>e. Year (the (parse_entry e))) es = map (take 4) es"
  proof (rule map_cong [OF refl])
    fix e assume "e \<in> set es"
    with v have "valid_entry e" by (simp add: well_formed_entry_def)
    then show "Year (the (parse_entry e)) = take 4 e" using parse_entry_valid [of e] by auto
  qed
  from 1 2 3 show ?thesis by (simp add: comp_def)
qed

theorem extract_publications_entries_witness:
  \<open>list_all well_formed_entry [''2020 - Smith, J. "A Study of Graphs". Journal of Math.'', ''2021-Doe. "B". V''] \<and>
   length (extract_publications (concat [''2020 - Smith, J. "A Study of Graphs". Journal of Math.'', ''2021-Doe. "B". V''])) = 2 \<and>
   map Year (extract_publications (concat [''2020 - Smith, J. "A Study of Graphs". Journal of Math.'', ''2021-Doe. "B". V''])) = [''2020'', ''2021'']\<close>
proof -
  have h: \<open>list_all well_formed_entry [''2020 - Smith, J. "A Study of Graphs". Journal of Math.'', ''2021-Doe. "B". V'']\<close>
    by code_simp
  note t = extract_publications_entries [OF h]
  from t [THEN conjunct1]
  have 1: \<open>length (extract_publications (concat [''2020 - Smith, J. "A Study of Graphs". Journal of Math.'', ''2021-Doe. "B". V''])) = 2\<close>
    by simp
  from t [THEN conjunct2, THEN conjunct2]
  have 2: \<open>map Year (extract_publications (concat [''2020 - Smith, J. "A Study of Graphs". Journal of Math.'', ''2021-Doe. "B". V''])) = [''2020'', ''2021'']\<close>
    by simp
  from h 1 2 show ?thesis by blast
qed

subsection \<open>The scenario of the specification\<close>

text \<open>
  C1. On the text \<open>2020 - Smith, J. "A Study of Graphs". Journal of Math.\<close> the extractor
  returns exactly one record, with year \<open>2020\<close>, authors \<open>Smith, J\<close> and title
  \<open>A Study of Graphs\<close>. Its venue is \<open>Journal of Math\<close> preceded by one space: the text
  after the closing quote is \<open>. Journal of Math.\<close>, which \<open>strip()\<close> leaves as it is and from
  which \<open>strip('.')\<close> removes the period at either end, so the space that followed the
  leading period stays.
\<close>

theorem extract_publications_scenario:
  \<open>extract_publications ''2020 - Smith, J. "A Study of Graphs". Journal of Math.'' =
     [\<lparr>Year = ''2020'', Authors = ''Smith, J'', Title = ''A Study of Graphs'',
       Venue = '' Journal of Math''\<rparr>]\<close>
  by code_simp

subsection \<open>Titles of the records\<close>

text \<open>
  C3. The title is group 1 of the quoted substring after \<open>strip()\<close>. Group 1 is never
  empty, but it may be all whitespace: on the text \<open>2020 - A. " ". V\<close> the extractor returns
  a record whose title is the empty string.
\<close>

theorem extract_publications_blank_title:
  \<open>extract_publications ''2020 - A. " ". V'' =
     [\<lparr>Year = ''2020'', Authors = ''A'', Title = [], Venue = '' V''\<rparr>]\<close>
  by code_simp


section \<open>The similarity ratio\<close>

text \<open>
  The similarity of two normalized titles is \<open>SequenceMatcher(None, a, b).ratio()\<close> of
  Python's \<open>difflib\<close>. The matcher is called with \<open>isjunk = None\<close>, so no character is
  junk, and with the default \<open>autojunk = True\<close>. The definitions follow the methods of
  the class: \<open>__chain_b\<close>, \<open>find_longest_match\<close>, \<open>get_matching_blocks\<close> and \<open>ratio\<close>.
\<close>

subsection \<open>Indexing the second sequence\<close>

text \<open>
  \<open>__chain_b\<close>: \<open>b2j\<close> maps a character to the increasing list of its positions in \<open>b\<close>. When
  \<open>b\<close> has 200 characters or more, a character that occurs more than \<open>len(b) // 100 + 1\<close>
  times is popular and loses its entry. A character without an entry gets the empty list
  (\<open>b2j.get(elt, [])\<close>). The set \<open>bjunk\<close> is empty.
\<close>

definition popular :: "string \<Rightarrow> char \<Rightarrow> bool" where
  "popular b elt = (200 \<le> length b \<and> length b div 100 + 1 < count_list b elt)"

definition b2j :: "string \<Rightarrow> char \<Rightarrow> nat list" where
  "b2j b elt = (if popular b elt then [] else filter (\<lambda>j. b ! j = elt) [0..<length b])"

definition isbjunk :: "char \<Rightarrow> bool" where
  "isbjunk elt = False"

subsection \<open>The longest matching block\<close>

text \<open>
  \<open>find_longest_match(alo, ahi, blo, bhi)\<close>. A block is a triple \<open>(i, j, k)\<close>: \<open>k\<close> characters
  from position \<open>i\<close> of \<open>a\<close> and from position \<open>j\<close> of \<open>b\<close>. The dictionaries \<open>j2len\<close> and
  \<open>newj2len\<close> are functions with default 0, as they are only read with \<open>get(j, 0)\<close>;
  \<open>j2len.get(j - 1, 0)\<close> at \<open>j = 0\<close> reads the key \<open>-1\<close>, which is never set. The matcher calls the
  method with \<open>alo \<le> ahi \<le> len(a)\<close> and \<open>blo \<le> bhi \<le> len(b)\<close> only.

  \<open>inner_loop\<close> is the loop over the positions \<open>j\<close> of \<open>a[i]\<close> in \<open>b\<close> (with its \<open>continue\<close> and
  \<open>break\<close>), \<open>outer_loop\<close> the loop over \<open>i\<close> in \<open>range(alo, ahi)\<close>.
\<close>

type_synonym best = "nat \<times> nat \<times> nat"

fun inner_loop ::
  "nat \<Rightarrow> nat \<Rightarrow> nat \<Rightarrow> (nat \<Rightarrow> nat) \<Rightarrow> nat list \<Rightarrow> (nat \<Rightarrow> nat) \<times> best \<Rightarrow> (nat \<Rightarrow> nat) \<times> best"
where
  "inner_loop i blo bhi j2len [] st = st"
| "inner_loop i blo bhi j2len (j # js) (newj2len, besti, bestj, bestsize) =
     (if j < blo then inner_loop i blo bhi j2len js (newj2len, besti, bestj, bestsize)
      else if bhi \<le> j then (newj2len, besti, bestj, bestsize)
      else (let k = (if j = 0 then 0 else j2len (j - 1)) + 1
            in inner_loop i blo bhi j2len js
                 (if bestsize < k then (newj2len(j := k), i + 1 - k, j + 1 - k, k)
                  else (newj2len(j := k), besti, bestj, bestsize))))"

function outer_loop ::
  "string \<Rightarrow> string \<Rightarrow> nat \<Rightarrow> nat \<Rightarrow> nat \<Rightarrow> nat \<Rightarrow> (nat \<Rightarrow> nat) \<times> best \<Rightarrow> best"
where
  "outer_loop a b ahi blo bhi i (j2len, best) =
     (if i < ahi
      then outer_loop a b ahi blo bhi (i + 1)
             (inner_loop i blo bhi j2len (b2j b (a ! i)) (\<lambda>j. 0, best))
      else best)"
  by pat_completeness auto
termination
  by (relation "measure (\<lambda>(a, b, ahi, blo, bhi, i, st). ahi - i)") auto

text \<open>
  The four \<open>while\<close> loops that extend the block to the left and to the right: first over
  characters that are not junk, then over junk. \<open>ok\<close> is the test on \<open>b\<close>'s character.
\<close>

function extend_left ::
  "(char \<Rightarrow> bool) \<Rightarrow> string \<Rightarrow> string \<Rightarrow> nat \<Rightarrow> nat \<Rightarrow> best \<Rightarrow> best"
where
  "extend_left ok a b alo blo (besti, bestj, bestsize) =
     (if alo < besti \<and> blo < bestj \<and> ok (b ! (bestj - 1)) \<and> a ! (besti - 1) = b ! (bestj - 1)
      then extend_left ok a b alo blo (besti - 1, bestj - 1, bestsize + 1)
      else (besti, bestj, bestsize))"
  by pat_completeness auto
termination
  by (relation "measure (\<lambda>(ok, a, b, alo, blo, besti, bestj, bestsize). besti)") auto

function extend_right ::
  "(char \<Rightarrow> bool) \<Rightarrow> string \<Rightarrow> string \<Rightarrow> nat \<Rightarrow> nat \<Rightarrow> best \<Rightarrow> best"
where
  "extend_right ok a b ahi bhi (besti, bestj, bestsize) =
     (if besti + bestsize < ahi \<and> bestj + bestsize < bhi \<and> ok (b ! (bestj + bestsize)) \<and>
         a ! (besti + bestsize) = b ! (bestj + bestsize)
      then extend_right ok a b ahi bhi (besti, bestj, bestsize + 1)
      else (besti, bestj, bestsize))"
  by pat_completeness auto
termination
  by (relation "measure (\<lambda>(ok, a, b, ahi, bhi, besti, bestj, bestsize). ahi - (besti + bestsize))") auto

declare outer_loop.simps [simp del] extend_left.simps [simp del] extend_right.simps [simp del]

definition find_longest_match :: "string \<Rightarrow> string \<Rightarrow> nat \<Rightarrow> nat \<Rightarrow> nat \<Rightarrow> nat \<Rightarrow> best" where
  "find_longest_match a b alo ahi blo bhi =
     (let best = outer_loop a b ahi blo bhi alo (\<lambda>j. 0, alo, blo, 0);
          best = extend_left (\<lambda>elt. \<not> isbjunk elt) a b alo blo best;
          best = extend_right (\<lambda>elt. \<not> isbjunk elt) a b ahi bhi best;
          best = extend_left isbjunk a b alo blo best;
          best = extend_right isbjunk a b ahi bhi best
      in best)"

subsection \<open>Bounds of the longest match\<close>

text \<open>
  Whatever the arguments, the block returned lies inside the region: the run lengths in
  \<open>j2len\<close> never reach back beyond \<open>alo\<close> or \<open>blo\<close>.
\<close>

definition j2len_ok :: "nat \<Rightarrow> nat \<Rightarrow> nat \<Rightarrow> (nat \<Rightarrow> nat) \<Rightarrow> bool" where
  "j2len_ok alo blo i f = (\<forall>j. f j \<le> i - alo \<and> (0 < f j \<longrightarrow> blo \<le> j \<and> f j \<le> j + 1 - blo))"

definition best_ok :: "nat \<Rightarrow> nat \<Rightarrow> nat \<Rightarrow> nat \<Rightarrow> best \<Rightarrow> bool" where
  "best_ok alo ahi blo bhi best =
     (case best of (besti, bestj, bestsize) \<Rightarrow>
        alo \<le> besti \<and> blo \<le> bestj \<and>
        (if bestsize = 0 then besti = alo \<and> bestj = blo
         else besti + bestsize \<le> ahi \<and> bestj + bestsize \<le> bhi))"

lemma inner_loop_ok:
  assumes "alo \<le> i" and "i < ahi" and "j2len_ok alo blo i j2len"
    and "j2len_ok alo blo (i + 1) new" and "best_ok alo ahi blo bhi best"
    and "inner_loop i blo bhi j2len js (new, best) = (new', best')"
  shows "j2len_ok alo blo (i + 1) new' \<and> best_ok alo ahi blo bhi best'"
  using assms(4-6)
proof (induction js arbitrary: new best)
  case Nil
  then show ?case by simp
next
  case (Cons j js)
  obtain besti bestj bestsize where best: "best = (besti, bestj, bestsize)" by (cases best)
  show ?case
  proof (cases "j < blo")
    case True
    with Cons best show ?thesis by simp
  next
    case nlt: False
    show ?thesis
    proof (cases "bhi \<le> j")
      case True
      with Cons nlt best show ?thesis by simp
    next
      case False
      define k where "k = (if j = 0 then 0 else j2len (j - 1)) + 1"
      have "j2len (j - 1) \<le> i - alo" using assms(3) by (simp add: j2len_ok_def)
      then have k1: "k \<le> i + 1 - alo"
        using assms(1) unfolding k_def by (cases "j = 0") simp_all
      have k2: "k \<le> j + 1 - blo"
      proof (cases "j = 0 \<or> j2len (j - 1) = 0")
        case True
        then show ?thesis using nlt by (auto simp: k_def)
      next
        case False
        from assms(3) have "0 < j2len (j - 1) \<longrightarrow> blo \<le> j - 1 \<and> j2len (j - 1) \<le> (j - 1) + 1 - blo"
          unfolding j2len_ok_def by blast
        with False have "j2len (j - 1) \<le> j - blo" by simp
        with False nlt show ?thesis by (simp add: k_def)
      qed
      have kpos: "0 < k" by (simp add: k_def)
      have new_ok: "j2len_ok alo blo (i + 1) (new(j := k))"
        using Cons.prems(1) k1 k2 nlt by (auto simp: j2len_ok_def)
      show ?thesis
      proof (cases "bestsize < k")
        case True
        have bok: "best_ok alo ahi blo bhi (i + 1 - k, j + 1 - k, k)"
          using k1 k2 kpos assms(1,2) False nlt by (auto simp: best_ok_def)
        have "inner_loop i blo bhi j2len (j # js) (new, best) =
              inner_loop i blo bhi j2len js (new(j := k), i + 1 - k, j + 1 - k, k)"
          using nlt False True best by (simp add: k_def Let_def)
        with Cons.prems(3)
        have "inner_loop i blo bhi j2len js (new(j := k), i + 1 - k, j + 1 - k, k) = (new', best')"
          by simp
        from Cons.IH [OF new_ok bok this] show ?thesis .
      next
        case nb: False
        have "inner_loop i blo bhi j2len (j # js) (new, best) =
              inner_loop i blo bhi j2len js (new(j := k), best)"
          using nlt False nb best by (simp add: k_def Let_def)
        with Cons.prems(3)
        have "inner_loop i blo bhi j2len js (new(j := k), best) = (new', best')"
          by simp
        from Cons.IH [OF new_ok Cons.prems(2) this] show ?thesis .
      qed
    qed
  qed
qed

lemma outer_loop_ok:
  "alo \<le> i \<Longrightarrow> j2len_ok alo blo i j2len \<Longrightarrow> best_ok alo ahi blo bhi best \<Longrightarrow>
   best_ok alo ahi blo bhi (outer_loop a b ahi blo bhi i (j2len, best))"
proof (induction a b ahi blo bhi i "(j2len, best)" arbitrary: j2len best rule: outer_loop.induct)
  case (1 a b ahi blo bhi i j2len best)
  show ?case
  proof (cases "i < ahi")
    case True
    obtain new' best' where
      il: "inner_loop i blo bhi j2len (b2j b (a ! i)) (\<lambda>j. 0, best) = (new', best')"
      by (cases "inner_loop i blo bhi j2len (b2j b (a ! i)) (\<lambda>j. 0, best)") auto
    have "j2len_ok alo blo (i + 1) (\<lambda>j. 0)" by (simp add: j2len_ok_def)
    from inner_loop_ok [OF "1.prems"(1) True "1.prems"(2) this "1.prems"(3) il]
    have ok: "j2len_ok alo blo (i + 1) new'" "best_ok alo ahi blo bhi best'" by simp_all
    have "best_ok alo ahi blo bhi (outer_loop a b ahi blo bhi (i + 1) (new', best'))"
      using "1.hyps" [OF True il] "1.prems"(1) ok by simp
    with True il show ?thesis by (subst outer_loop.simps) simp
  next
    case False
    with "1.prems" show ?thesis by (subst outer_loop.simps) simp
  qed
qed

lemma extend_left_ok:
  "best_ok alo ahi blo bhi best \<Longrightarrow> best_ok alo ahi blo bhi (extend_left ok a b alo blo best)"
proof (induction ok a b alo blo best rule: extend_left.induct)
  case (1 ok a b alo blo besti bestj bestsize)
  show ?case
  proof (cases "alo < besti \<and> blo < bestj \<and> ok (b ! (bestj - 1)) \<and> a ! (besti - 1) = b ! (bestj - 1)")
    case True
    have "best_ok alo ahi blo bhi (besti - 1, bestj - 1, bestsize + 1)"
      using True "1.prems" by (auto simp: best_ok_def split: if_splits)
    with "1.IH" [OF True] True show ?thesis by (subst extend_left.simps) simp
  next
    case False
    with "1.prems" show ?thesis by (subst extend_left.simps) auto
  qed
qed

lemma extend_right_ok:
  "best_ok alo ahi blo bhi best \<Longrightarrow> best_ok alo ahi blo bhi (extend_right ok a b ahi bhi best)"
proof (induction ok a b ahi bhi best rule: extend_right.induct)
  case (1 ok a b ahi bhi besti bestj bestsize)
  show ?case
  proof (cases "besti + bestsize < ahi \<and> bestj + bestsize < bhi \<and> ok (b ! (bestj + bestsize)) \<and>
         a ! (besti + bestsize) = b ! (bestj + bestsize)")
    case True
    have "best_ok alo ahi blo bhi (besti, bestj, bestsize + 1)"
      using True "1.prems" by (auto simp: best_ok_def split: if_splits)
    with "1.IH" [OF True] True show ?thesis by (subst extend_right.simps) simp
  next
    case False
    with "1.prems" show ?thesis by (subst extend_right.simps) auto
  qed
qed

lemma find_longest_match_ok:
  "best_ok alo ahi blo bhi (find_longest_match a b alo ahi blo bhi)"
proof -
  have "j2len_ok alo blo alo (\<lambda>j. 0)" by (simp add: j2len_ok_def)
  moreover have "best_ok alo ahi blo bhi (alo, blo, 0)" by (simp add: best_ok_def)
  ultimately have "best_ok alo ahi blo bhi (outer_loop a b ahi blo bhi alo (\<lambda>j. 0, alo, blo, 0))"
    by (intro outer_loop_ok) simp_all
  then show ?thesis
    unfolding find_longest_match_def Let_def
    by (intro extend_right_ok extend_left_ok)
qed

lemma find_longest_match_bounds:
  assumes "find_longest_match a b alo ahi blo bhi = (i, j, k)" and "k \<noteq> 0"
  shows "alo \<le> i \<and> i + k \<le> ahi \<and> blo \<le> j \<and> j + k \<le> bhi"
  using find_longest_match_ok [of alo ahi blo bhi a b] assms by (simp add: best_ok_def)


subsection \<open>The matching blocks\<close>

text \<open>
  \<open>get_matching_blocks\<close>: the loop over the queue of regions still to be matched. The
  Python list is used as a stack (\<open>queue.pop()\<close> takes its last element); the model keeps
  it with the last element first. Each step removes one region and adds at most two
  smaller ones, inside the bounds just proved.
\<close>

function matching_loop ::
  "string \<Rightarrow> string \<Rightarrow> (nat \<times> nat \<times> nat \<times> nat) list \<Rightarrow> best list \<Rightarrow> best list"
where
  "matching_loop a b [] matching_blocks = matching_blocks"
| "matching_loop a b ((alo, ahi, blo, bhi) # queue) matching_blocks =
     (case find_longest_match a b alo ahi blo bhi of
        (i, j, k) \<Rightarrow>
          if k \<noteq> 0
          then matching_loop a b
                 ((if i + k < ahi \<and> j + k < bhi then [(i + k, ahi, j + k, bhi)] else []) @
                  (if alo < i \<and> blo < j then [(alo, i, blo, j)] else []) @ queue)
                 (matching_blocks @ [(i, j, k)])
          else matching_loop a b queue matching_blocks)"
  by pat_completeness auto
termination
proof (relation "measure (\<lambda>(a, b, queue, blocks). \<Sum>(alo, ahi, blo, bhi)\<leftarrow>queue. 2 * (ahi - alo) + 1)",
    goal_cases)
  case 1
  show ?case by simp
next
  case (2 a b alo ahi blo bhi queue matching_blocks i y j k)
  then have "find_longest_match a b alo ahi blo bhi = (i, j, k)" by simp
  from find_longest_match_bounds [OF this \<open>k \<noteq> 0\<close>] \<open>k \<noteq> 0\<close>
  show ?case by auto
next
  case (3 a b alo ahi blo bhi queue matching_blocks i y j k)
  show ?case by simp
qed

declare matching_loop.simps [simp del]

text \<open>
  The sorted blocks are merged where they are adjacent; \<open>(i1, j1, k1)\<close> is the block being
  grown, starting from the dummy \<open>(0, 0, 0)\<close>. The result ends with the sentinel
  \<open>(len(a), len(b), 0)\<close>.
\<close>

fun collapse :: "best \<Rightarrow> best list \<Rightarrow> best list \<Rightarrow> best list" where
  "collapse (i1, j1, k1) non_adjacent [] =
     (if k1 \<noteq> 0 then non_adjacent @ [(i1, j1, k1)] else non_adjacent)"
| "collapse (i1, j1, k1) non_adjacent ((i2, j2, k2) # blocks) =
     (if i1 + k1 = i2 \<and> j1 + k1 = j2
      then collapse (i1, j1, k1 + k2) non_adjacent blocks
      else collapse (i2, j2, k2)
             (if k1 \<noteq> 0 then non_adjacent @ [(i1, j1, k1)] else non_adjacent) blocks)"

definition get_matching_blocks :: "string \<Rightarrow> string \<Rightarrow> best list" where
  "get_matching_blocks a b =
     (let la = length a; lb = length b;
          matching_blocks = sort (matching_loop a b [(0, la, 0, lb)] []);
          non_adjacent = collapse (0, 0, 0) [] matching_blocks
      in non_adjacent @ [(la, lb, 0)])"

text \<open>
  \<open>ratio()\<close> returns \<open>2.0 * matches / length\<close>, a float. The model keeps the exact rational
  number; Python's value is that number rounded to the nearest double. The rounding is
  monotone and exact on 0, 1/4, 1/2 and 1, and for strings of fewer than \<open>10^14\<close> characters
  the float exceeds the float \<open>0.85\<close> exactly when the rational exceeds \<open>17/20\<close> (two distinct
  multiples of \<open>1/(20 * length)\<close> are further apart than the spacing of doubles).
\<close>

definition calculate_ratio :: "nat \<Rightarrow> nat \<Rightarrow> rat" where
  "calculate_ratio matches len = (if len \<noteq> 0 then 2 * of_nat matches / of_nat len else 1)"

definition ratio :: "string \<Rightarrow> string \<Rightarrow> rat" where
  "ratio a b =
     (let matches = (\<Sum>(i, j, k)\<leftarrow>get_matching_blocks a b. k)
      in calculate_ratio matches (length a + length b))"

subsection \<open>A string against itself\<close>

text \<open>
  Comparing a string with itself gives one block, the whole string, also when popular
  characters are left out of \<open>b2j\<close>. \<open>diag_run a i\<close> is the number of consecutive characters
  that are not popular, ending at position \<open>i\<close>: the length the loop records on the diagonal.
  Off the diagonal it never records more, so the best block found by the loops lies on the
  diagonal and the extension covers the rest.
\<close>

fun diag_run :: "string \<Rightarrow> nat \<Rightarrow> nat" where
  "diag_run a 0 = (if popular a (a ! 0) then 0 else 1)"
| "diag_run a (Suc i) = (if popular a (a ! Suc i) then 0 else diag_run a i + 1)"

definition diag_before :: "string \<Rightarrow> nat \<Rightarrow> nat" where
  "diag_before a i = (if i = 0 then 0 else diag_run a (i - 1))"

lemma diag_run_eq:
  "diag_run a i = (if popular a (a ! i) then 0 else diag_before a i + 1)"
  by (cases i) (simp_all add: diag_before_def)

declare diag_run.simps [simp del]

definition next_len :: "(nat \<Rightarrow> nat) \<Rightarrow> nat \<Rightarrow> nat" where
  "next_len j2len j = (if j = 0 then 0 else j2len (j - 1)) + 1"

lemma inner_loop_step:
  "\<not> j < blo \<Longrightarrow> j < bhi \<Longrightarrow>
   inner_loop i blo bhi j2len (j # js) (new, besti, bestj, bestsize) =
   inner_loop i blo bhi j2len js
     (if bestsize < next_len j2len j
      then (new(j := next_len j2len j), i + 1 - next_len j2len j, j + 1 - next_len j2len j,
            next_len j2len j)
      else (new(j := next_len j2len j), besti, bestj, bestsize))"
  by (simp add: next_len_def Let_def)

lemma inner_loop_append:
  "\<forall>j\<in>set xs. j < bhi \<Longrightarrow>
   inner_loop i blo bhi j2len (xs @ ys) st =
   inner_loop i blo bhi j2len ys (inner_loop i blo bhi j2len xs st)"
proof (induction xs arbitrary: st)
  case Nil
  then show ?case by simp
next
  case (Cons j xs)
  obtain new besti bestj bestsize where st: "st = (new, besti, bestj, bestsize)"
    by (cases st) auto
  from Cons.prems have "j < bhi" and rest: "\<forall>j\<in>set xs. j < bhi" by simp_all
  show ?case
  proof (cases "j < blo")
    case True
    with Cons.IH [OF rest] st show ?thesis by simp
  next
    case False
    with Cons.IH [OF rest] st \<open>j < bhi\<close> show ?thesis
      by (simp add: inner_loop_step del: inner_loop.simps)
  qed
qed

lemma inner_loop_unchanged:
  "\<forall>j\<in>set js. j < bhi \<and> next_len j2len j \<le> bestsize \<Longrightarrow>
   inner_loop i 0 bhi j2len js (new, besti, bestj, bestsize) =
   (\<lambda>j. if j \<in> set js then next_len j2len j else new j, besti, bestj, bestsize)"
proof (induction js arbitrary: new)
  case Nil
  then show ?case by simp
next
  case (Cons j js)
  then have j: "j < bhi" "\<not> bestsize < next_len j2len j"
    and rest: "\<forall>j\<in>set js. j < bhi \<and> next_len j2len j \<le> bestsize"
    by auto
  have "inner_loop i 0 bhi j2len (j # js) (new, besti, bestj, bestsize) =
        inner_loop i 0 bhi j2len js (new(j := next_len j2len j), besti, bestj, bestsize)"
    using j by (simp add: inner_loop_step del: inner_loop.simps)
  also have "\<dots> = (\<lambda>j'. if j' \<in> set js then next_len j2len j' else (new(j := next_len j2len j)) j',
                    besti, bestj, bestsize)"
    by (rule Cons.IH [OF rest])
  also have "(\<lambda>j'. if j' \<in> set js then next_len j2len j' else (new(j := next_len j2len j)) j') =
             (\<lambda>j'. if j' \<in> set (j # js) then next_len j2len j' else new j')"
    by (auto simp: fun_eq_iff)
  finally show ?case .
qed


definition self_inv :: "string \<Rightarrow> nat \<Rightarrow> (nat \<Rightarrow> nat) \<times> best \<Rightarrow> bool" where
  "self_inv a i st =
     (case st of (j2len, besti, bestj, bestsize) \<Rightarrow>
        besti = bestj \<and> (\<forall>j. j2len j \<le> diag_before a i) \<and>
        (0 < i \<longrightarrow> j2len (i - 1) = diag_before a i) \<and>
        (\<forall>j<length a. j2len j \<le> diag_run a j) \<and> (\<forall>r<i. diag_run a r \<le> bestsize))"

lemma upt_split: "i < n \<Longrightarrow> [0..<n] = [0..<i] @ i # [Suc i..<n]"
  using upt_add_eq_append [of 0 i "n - i"] upt_conv_Cons [of i n] by simp

lemma self_inv_row:
  assumes i: "i < length a" and inv: "self_inv a i (j2len, best)"
  shows "self_inv a (i + 1) (inner_loop i 0 (length a) j2len (b2j a (a ! i)) (\<lambda>j. 0, best))"
proof -
  let ?n = "length a"
  let ?nl = "next_len j2len"
  obtain bi bj bs where "best = (bi, bj, bs)" by (cases best) auto
  with inv have best: "best = (bi, bi, bs)"
    and J1: "\<And>j. j2len j \<le> diag_before a i"
    and J2: "0 < i \<Longrightarrow> j2len (i - 1) = diag_before a i"
    and J3: "\<And>j. j < ?n \<Longrightarrow> j2len j \<le> diag_run a j"
    and B: "\<And>r. r < i \<Longrightarrow> diag_run a r \<le> bs"
    by (auto simp: self_inv_def)
  have next_before: "diag_before a (Suc i) = diag_run a i" by (simp add: diag_before_def)
  show ?thesis
  proof (cases "popular a (a ! i)")
    case True
    then have D: "diag_run a i = 0" by (simp add: diag_run_eq)
    have "\<And>r. r < i + 1 \<Longrightarrow> diag_run a r \<le> bs"
      using B D by (metis Suc_eq_plus1 less_Suc_eq zero_le)
    with True best D next_before show ?thesis
      by (simp add: b2j_def self_inv_def)
  next
    case False
    define P where "P = (\<lambda>j. a ! j = a ! i)"
    define xs where "xs = filter P [0..<i]"
    define ys where "ys = filter P [Suc i..<?n]"
    define D where "D = diag_run a i"
    have js: "b2j a (a ! i) = xs @ [i] @ ys"
      using False upt_split [OF i] by (simp add: b2j_def xs_def ys_def P_def)
    have Di: "D = diag_before a i + 1"
      using False by (simp add: D_def diag_run_eq)
    have nl_D: "?nl j \<le> D" for j
      using J1 [of "j - 1"] by (simp add: next_len_def Di)
    have nl_run: "?nl j \<le> diag_run a j" if "j < ?n" "P j" for j
    proof -
      from that False have run: "diag_run a j = diag_before a j + 1"
        by (simp add: P_def diag_run_eq)
      show ?thesis
      proof (cases "j = 0")
        case True
        with run show ?thesis by (simp add: next_len_def diag_before_def)
      next
        case nz: False
        with that J3 [of "j - 1"] have "j2len (j - 1) \<le> diag_before a j"
          by (simp add: diag_before_def)
        with nz run show ?thesis by (simp add: next_len_def)
      qed
    qed
    have nl_i: "?nl i = D"
      using J2 by (cases "i = 0") (simp_all add: next_len_def Di diag_before_def)
    have xs_set: "j \<in> set xs \<Longrightarrow> j < i \<and> P j" for j by (simp add: xs_def)
    have ys_set: "j \<in> set ys \<Longrightarrow> i < j \<and> j < ?n \<and> P j" for j by (auto simp: ys_def)
    \<comment> \<open>the positions before \<open>i\<close>\<close>
    define f1 where "f1 = (\<lambda>j. if j \<in> set xs then ?nl j else 0)"
    have "\<forall>j\<in>set xs. j < ?n \<and> ?nl j \<le> bs"
    proof
      fix j assume "j \<in> set xs"
      with xs_set [of j] i have "j < i" "j < ?n" "P j" by simp_all
      with nl_run B show "j < ?n \<and> ?nl j \<le> bs" using le_trans by blast
    qed
    then have p1: "inner_loop i 0 ?n j2len xs (\<lambda>j. 0, bi, bi, bs) = (f1, bi, bi, bs)"
      unfolding f1_def by (rule inner_loop_unchanged)
    \<comment> \<open>the position \<open>i\<close> itself\<close>
    define bi2 where "bi2 = (if bs < D then i + 1 - D else bi)"
    define bs2 where "bs2 = (if bs < D then D else bs)"
    have p2: "inner_loop i 0 ?n j2len [i] (f1, bi, bi, bs) = (f1(i := D), bi2, bi2, bs2)"
      using i nl_i by (simp add: inner_loop_step bi2_def bs2_def del: inner_loop.simps(2))
    \<comment> \<open>the positions after \<open>i\<close>\<close>
    define f3 where "f3 = (\<lambda>j. if j \<in> set ys then ?nl j else (f1(i := D)) j)"
    have "\<forall>j\<in>set ys. j < ?n \<and> ?nl j \<le> bs2"
    proof
      fix j assume "j \<in> set ys"
      with ys_set have "j < ?n" by blast
      moreover have "?nl j \<le> bs2" using nl_D [of j] by (simp add: bs2_def)
      ultimately show "j < ?n \<and> ?nl j \<le> bs2" ..
    qed
    then have p3: "inner_loop i 0 ?n j2len ys (f1(i := D), bi2, bi2, bs2) = (f3, bi2, bi2, bs2)"
      unfolding f3_def by (rule inner_loop_unchanged)
    have lt: "\<forall>j\<in>set xs. j < ?n" "\<forall>j\<in>set [i]. j < ?n"
      using i by (auto simp: xs_def)
    have "inner_loop i 0 ?n j2len (b2j a (a ! i)) (\<lambda>j. 0, best) = (f3, bi2, bi2, bs2)"
      unfolding js best
      by (simp only: inner_loop_append [OF lt(1)] inner_loop_append [OF lt(2)] p1 p2 p3)
    moreover have "self_inv a (i + 1) (f3, bi2, bi2, bs2)"
    proof -
      have c1: "f3 j \<le> D" for j
        using nl_D [of j] by (simp add: f3_def f1_def)
      have c2: "f3 i = D"
        using ys_set [of i] by (auto simp: f3_def)
      have c3: "f3 j \<le> diag_run a j" if "j < ?n" for j
      proof (cases "j \<in> set ys \<or> j \<in> set xs")
        case True
        with xs_set ys_set have "P j" by blast
        from nl_run [OF that this] True show ?thesis
          by (auto simp: f3_def f1_def D_def)
      next
        case False
        then show ?thesis by (simp add: f3_def f1_def D_def)
      qed
      have c4: "diag_run a r \<le> bs2" if "r < i + 1" for r
      proof (cases "r = i")
        case True
        then show ?thesis by (simp add: bs2_def D_def)
      next
        case False
        with that have "r < i" by simp
        from B [OF this] show ?thesis by (simp add: bs2_def)
      qed
      show ?thesis
        using c1 c2 c3 c4 by (simp add: self_inv_def next_before D_def)
    qed
    ultimately show ?thesis by simp
  qed
qed


lemma outer_loop_self:
  "i \<le> length a \<Longrightarrow> self_inv a i (j2len, best) \<Longrightarrow>
   \<exists>bi bs. outer_loop a a (length a) 0 (length a) i (j2len, best) = (bi, bi, bs)"
proof (induction "length a - i" arbitrary: i j2len best)
  case 0
  from "0.prems"(2) obtain bi bs where "best = (bi, bi, bs)"
    by (cases best) (auto simp: self_inv_def)
  with 0 show ?case by (subst outer_loop.simps) simp
next
  case (Suc d)
  then have lt: "i < length a" and d: "d = length a - (i + 1)" and le: "i + 1 \<le> length a"
    by simp_all
  obtain new' best' where
    il: "inner_loop i 0 (length a) j2len (b2j a (a ! i)) (\<lambda>j. 0, best) = (new', best')"
    by (cases "inner_loop i 0 (length a) j2len (b2j a (a ! i)) (\<lambda>j. 0, best)") auto
  from self_inv_row [OF lt Suc.prems(2)] il have "self_inv a (i + 1) (new', best')" by simp
  from Suc.hyps(1) [OF d le this]
  obtain bi bs where "outer_loop a a (length a) 0 (length a) (i + 1) (new', best') = (bi, bi, bs)"
    by auto
  with lt il show ?case by (subst outer_loop.simps) simp
qed

lemma extend_left_self:
  "extend_left (\<lambda>elt. True) a a 0 0 (bi, bi, bs) = (0, 0, bs + bi)"
proof (induction bi arbitrary: bs)
  case 0
  show ?case by (subst extend_left.simps) simp
next
  case (Suc bi)
  from Suc.IH [of "bs + 1"] show ?case
    by (subst extend_left.simps) simp
qed

lemma extend_right_self:
  "bs \<le> n \<Longrightarrow> extend_right (\<lambda>elt. True) a a n n (0, 0, bs) = (0, 0, n)"
proof (induction "n - bs" arbitrary: bs)
  case 0
  then show ?case by (subst extend_right.simps) simp
next
  case (Suc d)
  then have "bs < n" "d = n - (bs + 1)" "bs + 1 \<le> n" by simp_all
  with Suc.hyps(1) [of "bs + 1"] show ?case
    by (subst extend_right.simps) simp
qed

lemma extend_left_never: "extend_left (\<lambda>elt. False) a b alo blo best = best"
  by (cases best) (simp add: extend_left.simps)

lemma extend_right_never: "extend_right (\<lambda>elt. False) a b ahi bhi best = best"
  by (cases best) (simp add: extend_right.simps)

lemma isbjunk_eq: "isbjunk = (\<lambda>elt. False)"
  by (simp add: fun_eq_iff isbjunk_def)

lemma find_longest_match_self:
  "find_longest_match a a 0 (length a) 0 (length a) = (0, 0, length a)"
proof -
  let ?n = "length a"
  have "self_inv a 0 (\<lambda>j. 0, 0, 0, 0)" by (simp add: self_inv_def)
  from outer_loop_self [OF _ this] obtain bi bs
    where ol: "outer_loop a a ?n 0 ?n 0 (\<lambda>j. 0, 0, 0, 0) = (bi, bi, bs)" by auto
  have "j2len_ok 0 0 0 (\<lambda>j. 0)" by (simp add: j2len_ok_def)
  moreover have "best_ok 0 ?n 0 ?n (0, 0, 0)" by (simp add: best_ok_def)
  ultimately have "best_ok 0 ?n 0 ?n (outer_loop a a ?n 0 ?n 0 (\<lambda>j. 0, 0, 0, 0))"
    by (intro outer_loop_ok) simp_all
  with ol have le: "bs + bi \<le> ?n" by (auto simp: best_ok_def split: if_splits)
  have "find_longest_match a a 0 ?n 0 ?n =
        extend_right isbjunk a a ?n ?n (extend_left isbjunk a a 0 0
          (extend_right (\<lambda>elt. \<not> isbjunk elt) a a ?n ?n
            (extend_left (\<lambda>elt. \<not> isbjunk elt) a a 0 0 (bi, bi, bs))))"
    by (simp add: find_longest_match_def ol)
  also have "\<dots> = extend_right (\<lambda>elt. \<not> isbjunk elt) a a ?n ?n
            (extend_left (\<lambda>elt. \<not> isbjunk elt) a a 0 0 (bi, bi, bs))"
    by (simp add: extend_left_never extend_right_never isbjunk_eq)
  also have "\<dots> = (0, 0, ?n)"
    using le by (simp add: extend_left_self extend_right_self isbjunk_eq)
  finally show ?thesis .
qed

lemma ratio_self: "ratio a a = 1"
proof (cases "a = []")
  case True
  have "find_longest_match [] [] 0 0 0 0 = (0, 0, 0)"
    using find_longest_match_self [of "[]"] by simp
  then have "matching_loop [] [] [(0, 0, 0, 0)] [] = []"
    by (simp add: matching_loop.simps)
  with True show ?thesis
    by (simp add: ratio_def get_matching_blocks_def calculate_ratio_def Let_def)
next
  case False
  let ?n = "length a"
  from False have n: "?n \<noteq> 0" by simp
  have "matching_loop a a [(0, ?n, 0, ?n)] [] = [(0, 0, ?n)]"
    using n by (simp add: matching_loop.simps find_longest_match_self)
  then have "get_matching_blocks a a = [(0, 0, ?n), (?n, ?n, 0)]"
    using n by (simp add: get_matching_blocks_def Let_def)
  with n show ?thesis
    by (simp add: ratio_def calculate_ratio_def)
qed


subsection \<open>Empty strings\<close>

lemma ratio_no_room:
  assumes "a = [] \<or> b = []"
  shows "ratio a b = (if a = [] \<and> b = [] then 1 else 0)"
proof -
  obtain i j k where f: "find_longest_match a b 0 (length a) 0 (length b) = (i, j, k)"
    by (cases "find_longest_match a b 0 (length a) 0 (length b)") auto
  have "k = 0"
  proof (rule ccontr)
    assume "k \<noteq> 0"
    from find_longest_match_bounds [OF f this] assms \<open>k \<noteq> 0\<close> show False by auto
  qed
  with f have "matching_loop a b [(0, length a, 0, length b)] [] = []"
    by (simp add: matching_loop.simps)
  then show ?thesis
    by (simp add: ratio_def get_matching_blocks_def calculate_ratio_def Let_def)
qed

subsection \<open>Blocks are matches\<close>

text \<open>
  Every block that the search returns is a run of equal elements: the lengths kept in
  \<open>j2len\<close> count equal elements that end at the current positions, and the extension loops
  only add equal elements.
\<close>

definition prev_genuine :: "string \<Rightarrow> string \<Rightarrow> nat \<Rightarrow> (nat \<Rightarrow> nat) \<Rightarrow> bool" where
  "prev_genuine a b i f = (\<forall>j t. t < f j \<longrightarrow> t < i \<and> t \<le> j \<and> a ! (i - 1 - t) = b ! (j - t))"

definition row_genuine :: "string \<Rightarrow> string \<Rightarrow> nat \<Rightarrow> (nat \<Rightarrow> nat) \<Rightarrow> bool" where
  "row_genuine a b i f = (\<forall>j t. t < f j \<longrightarrow> t \<le> i \<and> t \<le> j \<and> a ! (i - t) = b ! (j - t))"

definition best_genuine :: "string \<Rightarrow> string \<Rightarrow> best \<Rightarrow> bool" where
  "best_genuine a b best =
     (case best of (besti, bestj, bestsize) \<Rightarrow> \<forall>t<bestsize. a ! (besti + t) = b ! (bestj + t))"

lemma b2j_positions: "j \<in> set (b2j b elt) \<Longrightarrow> j < length b \<and> b ! j = elt"
  by (auto simp: b2j_def split: if_splits)

lemma next_len_genuine:
  assumes prev: "prev_genuine a b i j2len" and same: "b ! j = a ! i" and t: "t < next_len j2len j"
  shows "t \<le> i \<and> t \<le> j \<and> a ! (i - t) = b ! (j - t)"
proof (cases t)
  case 0
  with same show ?thesis by simp
next
  case (Suc t')
  with t have j: "j \<noteq> 0" and t': "t' < j2len (j - 1)"
    by (auto simp: next_len_def split: if_splits)
  from prev t' have p: "t' < i" "t' \<le> j - 1" "a ! (i - 1 - t') = b ! (j - 1 - t')"
    unfolding prev_genuine_def by blast+
  from p(1,2) j have "Suc t' \<le> i" "Suc t' \<le> j" by arith+
  moreover from p(3) have "a ! (i - Suc t') = b ! (j - Suc t')" by simp
  ultimately show ?thesis using Suc by simp
qed

lemma inner_loop_genuine:
  assumes prev: "prev_genuine a b i j2len"
    and js: "\<forall>j\<in>set js. b ! j = a ! i"
    and "row_genuine a b i new" and "best_genuine a b best"
    and "inner_loop i blo bhi j2len js (new, best) = (new', best')"
  shows "row_genuine a b i new' \<and> best_genuine a b best'"
  using js assms(3-5)
proof (induction js arbitrary: new best)
  case Nil
  then show ?case by simp
next
  case (Cons j js)
  obtain besti bestj bestsize where best: "best = (besti, bestj, bestsize)" by (cases best)
  from Cons.prems(1) have same: "b ! j = a ! i" and rest: "\<forall>j\<in>set js. b ! j = a ! i" by simp_all
  show ?case
  proof (cases "j < blo")
    case True
    with Cons.IH [OF rest Cons.prems(2,3)] Cons.prems(4) best show ?thesis by simp
  next
    case nlt: False
    show ?thesis
    proof (cases "bhi \<le> j")
      case True
      with Cons.prems nlt best show ?thesis by simp
    next
      case False
      then have jlt: "j < bhi" by simp
      let ?k = "next_len j2len j"
      note g = next_len_genuine [OF prev same]
      have new_ok: "row_genuine a b i (new(j := ?k))"
        using Cons.prems(2) g by (auto simp: row_genuine_def)
      show ?thesis
      proof (cases "bestsize < ?k")
        case True
        have "best_genuine a b (i + 1 - ?k, j + 1 - ?k, ?k)"
          unfolding best_genuine_def
        proof (clarsimp)
          fix t assume t: "t < ?k"
          then have "?k - 1 - t < ?k" by simp
          from g [OF this] t
          have "?k - 1 - t \<le> i" "?k - 1 - t \<le> j" "a ! (i - (?k - 1 - t)) = b ! (j - (?k - 1 - t))"
            by simp_all
          moreover from g [of "?k - 1"] t have "?k - 1 \<le> i" "?k - 1 \<le> j" by simp_all
          ultimately show "a ! (Suc i - ?k + t) = b ! (Suc j - ?k + t)"
            using t by (simp add: Suc_diff_le)
        qed
        moreover have "inner_loop i blo bhi j2len js (new(j := ?k), i + 1 - ?k, j + 1 - ?k, ?k) =
                       (new', best')"
          using Cons.prems(4) nlt jlt True best
          by (simp add: inner_loop_step del: inner_loop.simps)
        ultimately show ?thesis using Cons.IH [OF rest new_ok] by blast
      next
        case nb: False
        have "inner_loop i blo bhi j2len js (new(j := ?k), best) = (new', best')"
          using Cons.prems(4) nlt jlt nb best
          by (simp add: inner_loop_step del: inner_loop.simps)
        with Cons.IH [OF rest new_ok Cons.prems(3)] show ?thesis by blast
      qed
    qed
  qed
qed

lemma outer_loop_genuine:
  "prev_genuine a b i j2len \<Longrightarrow> best_genuine a b best \<Longrightarrow>
   best_genuine a b (outer_loop a b ahi blo bhi i (j2len, best))"
proof (induction a b ahi blo bhi i "(j2len, best)" arbitrary: j2len best rule: outer_loop.induct)
  case (1 a b ahi blo bhi i j2len best)
  show ?case
  proof (cases "i < ahi")
    case True
    obtain new' best' where
      il: "inner_loop i blo bhi j2len (b2j b (a ! i)) (\<lambda>j. 0, best) = (new', best')"
      by (cases "inner_loop i blo bhi j2len (b2j b (a ! i)) (\<lambda>j. 0, best)") auto
    have "\<forall>j\<in>set (b2j b (a ! i)). b ! j = a ! i" by (simp add: b2j_positions)
    moreover have "row_genuine a b i (\<lambda>j. 0)" by (simp add: row_genuine_def)
    ultimately have "row_genuine a b i new'" and b': "best_genuine a b best'"
      using inner_loop_genuine [OF "1.prems"(1) _ _ "1.prems"(2) il] by blast+
    then have "prev_genuine a b (i + 1) new'"
      by (auto simp: row_genuine_def prev_genuine_def less_Suc_eq_le)
    from "1.hyps" [OF True il this b'] True il show ?thesis
      by (subst outer_loop.simps) simp
  next
    case False
    with "1.prems" show ?thesis by (subst outer_loop.simps) simp
  qed
qed

lemma extend_left_genuine:
  "best_genuine a b best \<Longrightarrow> best_genuine a b (extend_left ok a b alo blo best)"
proof (induction ok a b alo blo best rule: extend_left.induct)
  case (1 ok a b alo blo besti bestj bestsize)
  show ?case
  proof (cases "alo < besti \<and> blo < bestj \<and> ok (b ! (bestj - 1)) \<and> a ! (besti - 1) = b ! (bestj - 1)")
    case True
    have "best_genuine a b (besti - 1, bestj - 1, bestsize + 1)"
      unfolding best_genuine_def
    proof (clarsimp)
      fix t assume "t < Suc bestsize"
      show "a ! (besti - Suc 0 + t) = b ! (bestj - Suc 0 + t)"
      proof (cases t)
        case 0
        with True show ?thesis by simp
      next
        case (Suc t')
        with \<open>t < Suc bestsize\<close> "1.prems" have "a ! (besti + t') = b ! (bestj + t')"
          by (simp add: best_genuine_def)
        with Suc True show ?thesis by simp
      qed
    qed
    with "1.IH" [OF True] True show ?thesis by (subst extend_left.simps) simp
  next
    case False
    with "1.prems" show ?thesis by (subst extend_left.simps) auto
  qed
qed

lemma extend_right_genuine:
  "best_genuine a b best \<Longrightarrow> best_genuine a b (extend_right ok a b ahi bhi best)"
proof (induction ok a b ahi bhi best rule: extend_right.induct)
  case (1 ok a b ahi bhi besti bestj bestsize)
  show ?case
  proof (cases "besti + bestsize < ahi \<and> bestj + bestsize < bhi \<and> ok (b ! (bestj + bestsize)) \<and>
         a ! (besti + bestsize) = b ! (bestj + bestsize)")
    case True
    have "best_genuine a b (besti, bestj, bestsize + 1)"
      using True "1.prems" by (auto simp: best_genuine_def less_Suc_eq)
    with "1.IH" [OF True] True show ?thesis by (subst extend_right.simps) simp
  next
    case False
    with "1.prems" show ?thesis by (subst extend_right.simps) auto
  qed
qed

lemma find_longest_match_genuine:
  "best_genuine a b (find_longest_match a b alo ahi blo bhi)"
proof -
  have "prev_genuine a b alo (\<lambda>j. 0)" by (simp add: prev_genuine_def)
  moreover have "best_genuine a b (alo, blo, 0)" by (simp add: best_genuine_def)
  ultimately have "best_genuine a b (outer_loop a b ahi blo bhi alo (\<lambda>j. 0, alo, blo, 0))"
    by (rule outer_loop_genuine)
  then show ?thesis
    unfolding find_longest_match_def Let_def
    by (intro extend_right_genuine extend_left_genuine)
qed

lemma find_longest_match_block:
  assumes "find_longest_match a b alo ahi blo bhi = (i, j, k)" and "t < k"
  shows "a ! (i + t) = b ! (j + t)"
  using find_longest_match_genuine [of a b alo ahi blo bhi] assms by (simp add: best_genuine_def)

subsection \<open>How much the blocks cover\<close>

text \<open>
  The blocks lie in disjoint parts of both sequences, so their sizes add up to at most
  the length of either sequence; and when they add up to the whole length, the two
  sequences are equal. The sum of the sizes is what the ratio is computed from.
\<close>

type_synonym region = "nat \<times> nat \<times> nat \<times> nat"

definition block_total :: "best list \<Rightarrow> nat" where
  "block_total blocks = (\<Sum>(i, j, k)\<leftarrow>blocks. k)"

definition room_a :: "region list \<Rightarrow> nat" where
  "room_a queue = (\<Sum>(alo, ahi, blo, bhi)\<leftarrow>queue. ahi - alo)"

definition room_b :: "region list \<Rightarrow> nat" where
  "room_b queue = (\<Sum>(alo, ahi, blo, bhi)\<leftarrow>queue. bhi - blo)"

definition region_ok :: "region \<Rightarrow> bool" where
  "region_ok q = (case q of (alo, ahi, blo, bhi) \<Rightarrow> alo \<le> ahi \<and> blo \<le> bhi)"

definition region_equal :: "string \<Rightarrow> string \<Rightarrow> region \<Rightarrow> bool" where
  "region_equal a b q =
     (case q of (alo, ahi, blo, bhi) \<Rightarrow>
        ahi - alo = bhi - blo \<and> (\<forall>t<ahi - alo. a ! (alo + t) = b ! (blo + t)))"

definition pushed :: "region \<Rightarrow> best \<Rightarrow> region list" where
  "pushed q x =
     (case q of (alo, ahi, blo, bhi) \<Rightarrow> case x of (i, j, k) \<Rightarrow>
        (if i + k < ahi \<and> j + k < bhi then [(i + k, ahi, j + k, bhi)] else []) @
        (if alo < i \<and> blo < j then [(alo, i, blo, j)] else []))"

lemma matching_loop_found:
  "find_longest_match a b alo ahi blo bhi = (i, j, k) \<Longrightarrow> k \<noteq> 0 \<Longrightarrow>
   matching_loop a b ((alo, ahi, blo, bhi) # queue) blocks =
   matching_loop a b (pushed (alo, ahi, blo, bhi) (i, j, k) @ queue) (blocks @ [(i, j, k)])"
  by (simp add: matching_loop.simps pushed_def)

lemma matching_loop_nothing:
  "find_longest_match a b alo ahi blo bhi = (i, j, 0) \<Longrightarrow>
   matching_loop a b ((alo, ahi, blo, bhi) # queue) blocks = matching_loop a b queue blocks"
  by (simp add: matching_loop.simps)

lemma matching_loop_cases [case_names empty found nothing]:
  assumes "\<And>a b blocks. P a b [] blocks"
    and "\<And>a b alo ahi blo bhi queue blocks i j k.
           find_longest_match a b alo ahi blo bhi = (i, j, k) \<Longrightarrow> k \<noteq> 0 \<Longrightarrow>
           P a b (pushed (alo, ahi, blo, bhi) (i, j, k) @ queue) (blocks @ [(i, j, k)]) \<Longrightarrow>
           P a b ((alo, ahi, blo, bhi) # queue) blocks"
    and "\<And>a b alo ahi blo bhi queue blocks i j.
           find_longest_match a b alo ahi blo bhi = (i, j, 0) \<Longrightarrow>
           P a b queue blocks \<Longrightarrow>
           P a b ((alo, ahi, blo, bhi) # queue) blocks"
  shows "P a b queue blocks"
proof (induction a b queue blocks rule: matching_loop.induct)
  case (1 a b matching_blocks)
  show ?case by (rule assms(1))
next
  case (2 a b alo ahi blo bhi queue matching_blocks)
  obtain i j k where f: "find_longest_match a b alo ahi blo bhi = (i, j, k)"
    by (cases "find_longest_match a b alo ahi blo bhi") auto
  show ?case
  proof (cases "k = 0")
    case True
    with f have f0: "find_longest_match a b alo ahi blo bhi = (i, j, 0)" by simp
    from "2.IH"(2) [of i "(j, k)" j k] f True have "P a b queue matching_blocks" by simp
    with f0 show ?thesis by (rule assms(3))
  next
    case False
    from "2.IH"(1) [of i "(j, k)" j k] f False
    have "P a b (pushed (alo, ahi, blo, bhi) (i, j, k) @ queue) (matching_blocks @ [(i, j, k)])"
      by (simp add: pushed_def)
    with f False show ?thesis by (rule assms(2))
  qed
qed

lemma pushed_facts:
  assumes f: "find_longest_match a b alo ahi blo bhi = (i, j, k)" and k: "k \<noteq> 0"
  shows "list_all region_ok (pushed (alo, ahi, blo, bhi) (i, j, k))"
    and "room_a (pushed (alo, ahi, blo, bhi) (i, j, k)) + k \<le> ahi - alo"
    and "room_b (pushed (alo, ahi, blo, bhi) (i, j, k)) + k \<le> bhi - blo"
  using find_longest_match_bounds [OF f k]
  by (auto simp: pushed_def region_ok_def room_a_def room_b_def)

lemma room_append [simp]:
  "room_a (xs @ ys) = room_a xs + room_a ys" "room_b (xs @ ys) = room_b xs + room_b ys"
  by (simp_all add: room_a_def room_b_def)

lemma room_Nil [simp]: "room_a [] = 0" "room_b [] = 0"
  by (simp_all add: room_a_def room_b_def)

lemma room_Cons [simp]:
  "room_a ((alo, ahi, blo, bhi) # queue) = (ahi - alo) + room_a queue"
  "room_b ((alo, ahi, blo, bhi) # queue) = (bhi - blo) + room_b queue"
  by (simp_all add: room_a_def room_b_def)

lemma block_total_snoc [simp]: "block_total (blocks @ [(i, j, k)]) = block_total blocks + k"
  by (simp add: block_total_def)

lemma matching_loop_bound:
  "list_all region_ok queue \<Longrightarrow>
   block_total (matching_loop a b queue blocks) \<le> block_total blocks + room_a queue \<and>
   block_total (matching_loop a b queue blocks) \<le> block_total blocks + room_b queue"
proof (induction a b queue blocks rule: matching_loop_cases)
  case (empty a b blocks)
  show ?case by (simp add: matching_loop.simps room_a_def room_b_def)
next
  case (found a b alo ahi blo bhi queue blocks i j k)
  note p = pushed_facts [OF found.hyps]
  from found.prems p(1) have "list_all region_ok (pushed (alo, ahi, blo, bhi) (i, j, k) @ queue)"
    by simp
  from found.IH [OF this] p(2,3) show ?case
    by (simp add: matching_loop_found [OF found.hyps])
next
  case (nothing a b alo ahi blo bhi queue blocks i j)
  from nothing.prems have "list_all region_ok queue" by simp
  from nothing.IH [OF this] show ?case
    by (simp add: matching_loop_nothing [OF nothing.hyps])
qed

lemma region_from_parts:
  assumes bounds: "alo \<le> i" "i + k \<le> ahi" "blo \<le> j" "j + k \<le> bhi"
    and ra: "room_a (pushed (alo, ahi, blo, bhi) (i, j, k)) + k = ahi - alo"
    and rb: "room_b (pushed (alo, ahi, blo, bhi) (i, j, k)) + k = bhi - blo"
    and parts: "list_all (region_equal a b) (pushed (alo, ahi, blo, bhi) (i, j, k))"
    and block: "\<And>t. t < k \<Longrightarrow> a ! (i + t) = b ! (j + t)"
  shows "region_equal a b (alo, ahi, blo, bhi)"
proof -
  have left: "i - alo = j - blo \<and> (\<forall>t<i - alo. a ! (alo + t) = b ! (blo + t))"
  proof (cases "alo < i \<and> blo < j")
    case True
    with parts have "region_equal a b (alo, i, blo, j)" by (simp add: pushed_def)
    then show ?thesis by (simp add: region_equal_def)
  next
    case False
    with ra rb bounds have "i = alo" "j = blo"
      by (auto simp: pushed_def split: if_splits)
    then show ?thesis by simp
  qed
  have right: "ahi - (i + k) = bhi - (j + k) \<and>
               (\<forall>t<ahi - (i + k). a ! (i + k + t) = b ! (j + k + t))"
  proof (cases "i + k < ahi \<and> j + k < bhi")
    case True
    with parts have "region_equal a b (i + k, ahi, j + k, bhi)" by (simp add: pushed_def)
    then show ?thesis by (simp add: region_equal_def)
  next
    case False
    with ra rb bounds have "i + k = ahi" "j + k = bhi"
      by (auto simp: pushed_def split: if_splits)
    then show ?thesis by simp
  qed
  have size: "ahi - alo = bhi - blo" using left right bounds by arith
  moreover have "a ! (alo + t) = b ! (blo + t)" if t: "t < ahi - alo" for t
  proof -
    consider "t < i - alo" | "i - alo \<le> t" "t < i - alo + k" | "i - alo + k \<le> t" by arith
    then show ?thesis
    proof cases
      case 1
      with left show ?thesis by blast
    next
      case 2
      then have "t - (i - alo) < k" by arith
      from block [OF this] have m: "a ! (i + (t - (i - alo))) = b ! (j + (t - (i - alo)))" .
      have e1: "i + (t - (i - alo)) = alo + t" using 2 bounds by arith
      have e2: "j + (t - (i - alo)) = blo + t" using 2 bounds left by arith
      from m show ?thesis unfolding e1 e2 .
    next
      case 3
      with t bounds have "t - (i - alo + k) < ahi - (i + k)" by arith
      with right have m: "a ! (i + k + (t - (i - alo + k))) = b ! (j + k + (t - (i - alo + k)))"
        by blast
      have e1: "i + k + (t - (i - alo + k)) = alo + t" using 3 bounds by arith
      have e2: "j + k + (t - (i - alo + k)) = blo + t" using 3 bounds left by arith
      from m show ?thesis unfolding e1 e2 .
    qed
  qed
  ultimately show ?thesis by (simp add: region_equal_def)
qed

lemma matching_loop_tight:
  "list_all region_ok queue \<Longrightarrow>
   block_total (matching_loop a b queue blocks) = block_total blocks + room_a queue \<Longrightarrow>
   block_total (matching_loop a b queue blocks) = block_total blocks + room_b queue \<Longrightarrow>
   list_all (region_equal a b) queue"
proof (induction a b queue blocks rule: matching_loop_cases)
  case (empty a b blocks)
  show ?case by simp
next
  case (found a b alo ahi blo bhi queue blocks i j k)
  let ?q = "(alo, ahi, blo, bhi)"
  let ?new = "pushed ?q (i, j, k)"
  let ?T = "block_total (matching_loop a b (?new @ queue) (blocks @ [(i, j, k)]))"
  note p = pushed_facts [OF found.hyps]
  note bounds = find_longest_match_bounds [OF found.hyps]
  from found.prems(1) p(1) have ok: "list_all region_ok (?new @ queue)" by simp
  from found.prems(2,3)
  have T: "?T = block_total blocks + (ahi - alo) + room_a queue"
    "?T = block_total blocks + (bhi - blo) + room_b queue"
    by (simp_all add: matching_loop_found [OF found.hyps])
  from matching_loop_bound [OF ok, of a b "blocks @ [(i, j, k)]"]
  have le: "?T \<le> block_total blocks + k + room_a ?new + room_a queue"
    "?T \<le> block_total blocks + k + room_b ?new + room_b queue"
    by simp_all
  from T le p(2,3) have ra: "room_a ?new + k = ahi - alo" and rb: "room_b ?new + k = bhi - blo"
    by arith+
  with T have "?T = block_total (blocks @ [(i, j, k)]) + room_a (?new @ queue)"
    "?T = block_total (blocks @ [(i, j, k)]) + room_b (?new @ queue)"
    by simp_all
  from found.IH [OF ok this] have eq: "list_all (region_equal a b) ?new"
    "list_all (region_equal a b) queue"
    by simp_all
  have "region_equal a b ?q"
    using bounds ra rb eq(1)
    by (intro region_from_parts [where i = i and j = j and k = k])
      (simp_all add: find_longest_match_block [OF found.hyps(1)])
  with eq(2) show ?case by simp
next
  case (nothing a b alo ahi blo bhi queue blocks i j)
  let ?T = "block_total (matching_loop a b queue blocks)"
  from nothing.prems(1) have ok: "list_all region_ok queue" by simp
  from nothing.prems(1) have "region_ok (alo, ahi, blo, bhi)" by simp
  then have q: "alo \<le> ahi" "blo \<le> bhi" by (simp_all add: region_ok_def)
  from nothing.prems(2,3)
  have T: "?T = block_total blocks + (ahi - alo) + room_a queue"
    "?T = block_total blocks + (bhi - blo) + room_b queue"
    by (simp_all add: matching_loop_nothing [OF nothing.hyps])
  from matching_loop_bound [OF ok, of a b blocks] T
  have z: "ahi - alo = 0" "bhi - blo = 0" by arith+
  with T have "?T = block_total blocks + room_a queue" "?T = block_total blocks + room_b queue"
    by simp_all
  from nothing.IH [OF ok this] z show ?case by (simp add: region_equal_def)
qed

lemma block_total_Cons [simp]: "block_total ((i, j, k) # blocks) = k + block_total blocks"
  by (simp add: block_total_def)

lemma block_total_Nil [simp]: "block_total [] = 0"
  by (simp add: block_total_def)

lemma block_total_append [simp]: "block_total (xs @ ys) = block_total xs + block_total ys"
  by (simp add: block_total_def)

lemma block_total_insort: "block_total (insort x blocks) = block_total [x] + block_total blocks"
  by (induction blocks) (auto simp: block_total_def)

lemma block_total_sort: "block_total (sort blocks) = block_total blocks"
proof (induction blocks)
  case Nil
  show ?case by simp
next
  case (Cons x blocks)
  have "block_total (x # blocks) = block_total [x] + block_total blocks"
    by (simp add: block_total_def)
  with Cons show ?case by (simp add: block_total_insort)
qed

lemma block_total_collapse:
  "block_total (collapse (i1, j1, k1) non_adjacent blocks) =
   k1 + block_total non_adjacent + block_total blocks"
  by (induction "(i1, j1, k1)" non_adjacent blocks arbitrary: i1 j1 k1 rule: collapse.induct) auto

lemma ratio_block_total:
  "ratio a b =
   calculate_ratio (block_total (matching_loop a b [(0, length a, 0, length b)] []))
     (length a + length b)"
  by (simp add: ratio_def get_matching_blocks_def Let_def block_total_collapse block_total_sort
      block_total_def [symmetric])

lemma ratio_one_equal:
  assumes "ratio a b = 1"
  shows "a = b"
proof (cases "length a + length b = 0")
  case True
  then show ?thesis by simp
next
  case False
  let ?M = "block_total (matching_loop a b [(0, length a, 0, length b)] [])"
  have ok: "list_all region_ok [(0, length a, 0, length b)]" by (simp add: region_ok_def)
  from matching_loop_bound [OF ok, of a b "[]"] have le: "?M \<le> length a" "?M \<le> length b"
    by simp_all
  from assms False have "2 * (of_nat ?M :: rat) = of_nat (length a + length b)"
    by (simp add: ratio_block_total calculate_ratio_def field_simps)
  then have "(of_nat (2 * ?M) :: rat) = of_nat (length a + length b)" by simp
  then have "2 * ?M = length a + length b" by (simp only: of_nat_eq_iff)
  with le have M: "?M = length a" "?M = length b" by arith+
  then have "?M = block_total [] + room_a [(0, length a, 0, length b)]"
    "?M = block_total [] + room_b [(0, length a, 0, length b)]"
    by simp_all
  from matching_loop_tight [OF ok this] have "region_equal a b (0, length a, 0, length b)"
    by simp
  then have "length a = length b" "\<And>t. t < length a \<Longrightarrow> a ! t = b ! t"
    by (simp_all add: region_equal_def)
  then show ?thesis by (rule nth_equalityI)
qed

lemma ratio_one_iff: "ratio a b = 1 \<longleftrightarrow> a = b"
  using ratio_one_equal ratio_self by blast

lemma ratio_range: "0 \<le> ratio a b \<and> ratio a b \<le> 1"
proof (cases "length a + length b = 0")
  case True
  then show ?thesis by (simp add: ratio_block_total calculate_ratio_def)
next
  case False
  let ?M = "block_total (matching_loop a b [(0, length a, 0, length b)] [])"
  let ?L = "length a + length b"
  have ok: "list_all region_ok [(0, length a, 0, length b)]" by (simp add: region_ok_def)
  from matching_loop_bound [OF ok, of a b "[]"] have "2 * ?M \<le> ?L"
    by simp
  then have "(of_nat (2 * ?M) :: rat) \<le> of_nat ?L" by (simp only: of_nat_le_iff)
  then have le: "2 * (of_nat ?M :: rat) \<le> of_nat ?L" by simp
  from False have "0 < ?L" by simp
  then have pos: "(0 :: rat) < of_nat ?L" by (simp only: of_nat_0_less_iff)
  have r: "ratio a b = 2 * of_nat ?M / of_nat ?L"
    using False by (simp add: ratio_block_total calculate_ratio_def)
  have "0 \<le> ratio a b" unfolding r by simp
  moreover have "ratio a b \<le> 1" unfolding r using le pos by (simp only: pos_divide_le_eq mult_1)
  ultimately show ?thesis ..
qed

subsection \<open>Symmetry\<close>

text \<open>
  C8, as the claim words it: the ratio of \<open>a\<close> and \<open>b\<close> equals the ratio of \<open>b\<close> and \<open>a\<close>. The
  matcher looks for the longest block that starts earliest in its first sequence, so the
  blocks it finds depend on the order: for \<open>tide\<close> and \<open>diet\<close> it matches one character in
  one order and two in the other.
\<close>

theorem ratio_symmetric_counterexample:
  "ratio ''tide'' ''diet'' = 1 / 4 \<and> ratio ''diet'' ''tide'' = 1 / 2"
  by code_simp

text \<open>
  C8, amended. The verdict that two strings are identical is symmetric: the ratio of \<open>a\<close> and
  \<open>b\<close> is 1 exactly when \<open>a\<close> and \<open>b\<close> are equal, which is also when the ratio of \<open>b\<close> and \<open>a\<close>
  is 1; and the two ratios are equal when one of the strings is empty.
\<close>

theorem ratio_symmetric_verdict:
  "(ratio a b = 1 \<longleftrightarrow> a = b) \<and> (ratio b a = 1 \<longleftrightarrow> a = b) \<and>
   (a = [] \<or> b = [] \<longrightarrow> ratio a b = ratio b a)"
proof -
  have "ratio b a = 1 \<longleftrightarrow> a = b" using ratio_one_iff [of b a] by auto
  moreover have "a = [] \<or> b = [] \<longrightarrow> ratio a b = ratio b a" by (auto simp: ratio_no_room)
  ultimately show ?thesis using ratio_one_iff [of a b] by blast
qed

theorem ratio_symmetric_verdict_witness:
  "ratio ''tide'' [] = ratio [] ''tide'' \<and> ratio ''tide'' ''tide'' = 1 \<and> ratio ''tide'' ''diet'' \<noteq> 1"
proof -
  have e: "''tide'' \<noteq> ''diet''" by simp
  from ratio_symmetric_verdict [of "''tide''" "[]"] have "ratio ''tide'' [] = ratio [] ''tide''"
    by blast
  moreover from ratio_symmetric_verdict [of "''tide''" "''tide''"] have "ratio ''tide'' ''tide'' = 1"
    by blast
  moreover from ratio_symmetric_verdict [of "''tide''" "''diet''"] e
  have "ratio ''tide'' ''diet'' \<noteq> 1"
    by blast
  ultimately show ?thesis by blast
qed

subsection \<open>Equal normalized titles\<close>

text \<open>
  Tokens contain no whitespace, so the tokens can be read back from the joined string:
  two titles have the same normalization only if they have the same tokens up to case.
\<close>

lemma join_spaces_first:
  assumes "spaceless (w # ws)"
  shows "takeWhile (\<lambda>c. \<not> isspace c) (join_spaces (w # ws)) = w"
    and "dropWhile (\<lambda>c. \<not> isspace c) (join_spaces (w # ws)) =
         (if ws = [] then [] else CHR '' '' # join_spaces ws)"
proof -
  from assms have w: "\<And>c. c \<in> set w \<Longrightarrow> \<not> isspace c" by (simp add: spaceless_def)
  have j: "join_spaces (w # ws) = w @ (if ws = [] then [] else CHR '' '' # join_spaces ws)"
    by (simp add: join_spaces_Cons)
  show "takeWhile (\<lambda>c. \<not> isspace c) (join_spaces (w # ws)) = w"
    unfolding j using w by (simp add: isspace_space)
  show "dropWhile (\<lambda>c. \<not> isspace c) (join_spaces (w # ws)) =
        (if ws = [] then [] else CHR '' '' # join_spaces ws)"
    unfolding j using w by (simp add: isspace_space)
qed

lemma join_spaces_inject:
  "spaceless ws \<Longrightarrow> spaceless vs \<Longrightarrow> join_spaces ws = join_spaces vs \<Longrightarrow> ws = vs"
proof (induction ws arbitrary: vs)
  case Nil
  show ?case
  proof (cases vs)
    case Nil
    then show ?thesis by simp
  next
    case (Cons v vs')
    with Nil.prems(2) have "join_spaces vs \<noteq> []" using join_spaces_ends [of vs] by simp
    with Nil.prems(3) show ?thesis by simp
  qed
next
  case (Cons w ws)
  show ?case
  proof (cases vs)
    case Nil
    from Cons.prems(1) have "join_spaces (w # ws) \<noteq> []" using join_spaces_ends [of "w # ws"] by simp
    with Cons.prems(3) Nil show ?thesis by simp
  next
    case (Cons v vs')
    note f = join_spaces_first [OF Cons.prems(1)]
    note g = join_spaces_first [OF Cons.prems(2) [unfolded Cons]]
    from Cons.prems(3) Cons f(1) g(1) have wv: "w = v" by simp
    from Cons.prems(3) Cons f(2) g(2)
    have rest: "(if ws = [] then [] else CHR '' '' # join_spaces ws) =
                (if vs' = [] then [] else CHR '' '' # join_spaces vs')"
      by simp
    from Cons.prems(1) have sw: "spaceless ws" by (simp add: spaceless_def)
    from Cons.prems(2) Cons have sv: "spaceless vs'" by (simp add: spaceless_def)
    have "ws = vs'"
    proof (cases "ws = []")
      case True
      with rest show ?thesis by (simp split: if_splits)
    next
      case False
      with rest have "vs' \<noteq> []" "join_spaces ws = join_spaces vs'" by (simp_all split: if_splits)
      with Cons.IH [OF sw sv] show ?thesis by simp
    qed
    with wv Cons show ?thesis by simp
  qed
qed

lemma clean_text_eq_iff:
  "clean_text_for_comparison s = clean_text_for_comparison t \<longleftrightarrow>
   map lower (tokens s) = map lower (tokens t)"
  using join_spaces_inject [OF spaceless_lower_tokens spaceless_lower_tokens]
  by (auto simp: clean_text_tokens)

subsection \<open>Titles that differ in punctuation and letter case\<close>

text \<open>
  Two titles differ only in punctuation and letter case when they agree after the
  punctuation (every character that is neither a word character nor whitespace nor a
  hyphen) is deleted and the letters are lower-cased.
\<close>

definition same_but_punctuation_and_case :: "string \<Rightarrow> string \<Rightarrow> bool" where
  "same_but_punctuation_and_case s t =
     (lower (filter (\<lambda>c. isword c \<or> isspace c \<or> c = CHR ''-'') s) =
      lower (filter (\<lambda>c. isword c \<or> isspace c \<or> c = CHR ''-'') t))"

text \<open>
  C9, as the claim words it. The titles \<open>a:b\<close> and \<open>ab\<close> differ only in a colon, but the
  normalization turns the colon into a space: the normalized titles are \<open>a b\<close> and \<open>ab\<close>,
  and their ratio is 0.8.
\<close>

theorem normalized_ratio_counterexample:
  "same_but_punctuation_and_case ''a:b'' ''ab'' \<and>
   ratio (clean_text_for_comparison ''a:b'') (clean_text_for_comparison ''ab'') = 4 / 5"
  by code_simp

text \<open>
  C9, amended. For every pair of titles with the same tokens up to letter case (a token
  is a maximal run of word characters and hyphens; punctuation and whitespace only
  separate tokens), the ratio of the two normalized titles is exactly 1, and it is 1 for
  no other pair. The example of the specification, \<open>Deep Learning: A Review!\<close> against
  \<open>deep learning a review\<close>, is such a pair.
\<close>

theorem normalized_ratio_same_tokens:
  "ratio (clean_text_for_comparison s) (clean_text_for_comparison t) = 1 \<longleftrightarrow>
   map lower (tokens s) = map lower (tokens t)"
  by (simp only: ratio_one_iff clean_text_eq_iff)

theorem normalized_ratio_same_tokens_witness:
  "map lower (tokens ''Deep Learning: A Review!'') = map lower (tokens ''deep learning a review'') \<and>
   ratio (clean_text_for_comparison ''Deep Learning: A Review!'')
         (clean_text_for_comparison ''deep learning a review'') = 1"
proof -
  have h: "map lower (tokens ''Deep Learning: A Review!'') =
           map lower (tokens ''deep learning a review'')"
    by code_simp
  from normalized_ratio_same_tokens [of "''Deep Learning: A Review!''" "''deep learning a review''"] h
  show ?thesis by blast
qed


section \<open>The DOI resolver\<close>

subsection \<open>Values of the registry's answer\<close>

text \<open>
  \<open>response.json()\<close> returns a Python value built from \<open>None\<close>, booleans, integers,
  floats, strings, lists and dictionaries with string keys. A float is given by its
  \<open>repr\<close>, which determines it; a dictionary by its items in order (the keys of a Python
  dictionary are distinct, and a lookup takes the first pair with the key).
\<close>

datatype json =
    JNull
  | JBool bool
  | JInt int
  | JFloat string
  | JStr string
  | JList "json list"
  | JDict "(string \<times> json) list"

text \<open>
  The exceptions of the function: \<open>RequestException\<close> stands for whatever \<open>requests.get\<close>
  raises, \<open>JSONDecodeError\<close> for a body that is not JSON. Every operation that can raise
  returns \<open>error + 'a\<close>, and \<open>bind_err\<close> passes the first error on, as the statements of
  a \<open>try\<close> block do.
\<close>

datatype error = RequestException | JSONDecodeError | KeyError | TypeError | IndexError | AttributeError

definition bind_err :: "error + 'a \<Rightarrow> ('a \<Rightarrow> error + 'b) \<Rightarrow> error + 'b" where
  "bind_err m f = (case m of Inl e \<Rightarrow> Inl e | Inr x \<Rightarrow> f x)"

text \<open>The truth value of a Python value (\<open>not x\<close> is its negation).\<close>

fun truthy :: "json \<Rightarrow> bool" where
  "truthy JNull = False"
| "truthy (JBool b) = b"
| "truthy (JInt n) = (n \<noteq> 0)"
| "truthy (JFloat r) = (r \<noteq> ''0.0'' \<and> r \<noteq> ''-0.0'')"
| "truthy (JStr s) = (s \<noteq> [])"
| "truthy (JList xs) = (xs \<noteq> [])"
| "truthy (JDict kvs) = (kvs \<noteq> [])"

text \<open>
  \<open>x[key]\<close> for a string \<open>key\<close>, and \<open>x[0]\<close>. Only a dictionary can be subscripted by a
  string; a dictionary with string keys has no key \<open>0\<close>.
\<close>

fun getitem_str :: "json \<Rightarrow> string \<Rightarrow> error + json" where
  "getitem_str (JDict kvs) key = (case map_of kvs key of None \<Rightarrow> Inl KeyError | Some v \<Rightarrow> Inr v)"
| "getitem_str x key = Inl TypeError"

fun getitem_0 :: "json \<Rightarrow> error + json" where
  "getitem_0 (JList xs) = (case xs of [] \<Rightarrow> Inl IndexError | x # rest \<Rightarrow> Inr x)"
| "getitem_0 (JStr s) = (case s of [] \<Rightarrow> Inl IndexError | c # rest \<Rightarrow> Inr (JStr [c]))"
| "getitem_0 (JDict kvs) = Inl KeyError"
| "getitem_0 x = Inl TypeError"

text \<open>\<open>x.get(key, default)\<close>: only a dictionary has the method.\<close>

fun dict_get :: "json \<Rightarrow> string \<Rightarrow> json \<Rightarrow> error + json" where
  "dict_get (JDict kvs) key dflt = (case map_of kvs key of None \<Rightarrow> Inr dflt | Some v \<Rightarrow> Inr v)"
| "dict_get x key dflt = Inl AttributeError"

text \<open>
  \<open>key in x\<close> for a string \<open>key\<close>: a key of the dictionary, an element of the list, or a
  substring of the string.
\<close>

fun contains_str :: "string \<Rightarrow> json \<Rightarrow> error + bool" where
  "contains_str key (JDict kvs) = Inr (map_of kvs key \<noteq> None)"
| "contains_str key (JList xs) = Inr (JStr key \<in> set xs)"
| "contains_str key (JStr s) = Inr (sublist key s)"
| "contains_str key x = Inl TypeError"

text \<open>\<open>for result in x\<close>: the elements of a list, the keys of a dictionary, the characters
  of a string.\<close>

fun iterate :: "json \<Rightarrow> error + json list" where
  "iterate (JList xs) = Inr xs"
| "iterate (JDict kvs) = Inr (map (\<lambda>kv. JStr (fst kv)) kvs)"
| "iterate (JStr s) = Inr (map (\<lambda>c. JStr [c]) s)"
| "iterate x = Inl TypeError"

text \<open>
  \<open>str(x)\<close>: a string is itself, every other value is its \<open>repr\<close>. An integer is written
  in decimal; a string in quotes, double quotes when it holds a single quote and no
  double quote, with the quote, the backslash and the characters that are not printable
  escaped.
\<close>

definition digit_char :: "nat \<Rightarrow> char" where
  "digit_char d = ''0123456789abcdef'' ! d"

function str_nat :: "nat \<Rightarrow> string" where
  "str_nat n = (if n < 10 then [digit_char n] else str_nat (n div 10) @ [digit_char (n mod 10)])"
  by pat_completeness auto
termination
  by (relation "measure id") auto

declare str_nat.simps [simp del]

definition str_int :: "int \<Rightarrow> string" where
  "str_int i = (if i < 0 then CHR ''-'' # str_nat (nat (- i)) else str_nat (nat i))"

definition printable :: "char \<Rightarrow> bool" where
  "printable c =
     (let n = code_point c in \<not> (n < 32 \<or> n = 127 \<or> (128 \<le> n \<and> n \<le> 160) \<or> n = 173))"

definition repr_char :: "char \<Rightarrow> char \<Rightarrow> string" where
  "repr_char quote c =
     (if c = quote \<or> c = CHR 0x5C then [CHR 0x5C, c]
      else if c = CHR 0x09 then [CHR 0x5C, CHR ''t'']
      else if c = CHR 0x0A then [CHR 0x5C, CHR ''n'']
      else if c = CHR 0x0D then [CHR 0x5C, CHR ''r'']
      else if printable c then [c]
      else [CHR 0x5C, CHR ''x'', digit_char (code_point c div 16), digit_char (code_point c mod 16)])"

definition repr_str :: "string \<Rightarrow> string" where
  "repr_str s =
     (let quote = (if CHR 0x27 \<in> set s \<and> CHR 0x22 \<notin> set s then CHR 0x22 else CHR 0x27)
      in quote # concat (map (repr_char quote) s) @ [quote])"

fun join_comma :: "string list \<Rightarrow> string" where
  "join_comma [] = []"
| "join_comma [w] = w"
| "join_comma (w # v # ws) = w @ '', '' @ join_comma (v # ws)"

fun py_repr :: "json \<Rightarrow> string" where
  "py_repr JNull = ''None''"
| "py_repr (JBool b) = (if b then ''True'' else ''False'')"
| "py_repr (JInt n) = str_int n"
| "py_repr (JFloat r) = r"
| "py_repr (JStr s) = repr_str s"
| "py_repr (JList xs) = ''['' @ join_comma (map py_repr xs) @ '']''"
| "py_repr (JDict kvs) =
     ''{'' @ join_comma (map (\<lambda>kv. repr_str (fst kv) @ '': '' @ py_repr (snd kv)) kvs) @ ''}''"

fun py_str :: "json \<Rightarrow> string" where
  "py_str (JStr s) = s"
| "py_str x = py_repr x"



subsection \<open>The request\<close>

text \<open>
  The registry is the environment of the function: \<open>requests.get(base_url, params)\<close> either
  raises or returns a response, of which the function reads the status code and the JSON
  body (\<open>None\<close> when \<open>response.json()\<close> raises).
\<close>

record params =
  query_title :: string
  rows :: nat
  select :: string

datatype response = Response (status_code: int) (json_body: "json option")

type_synonym registry = "string \<Rightarrow> params \<Rightarrow> error + response"

definition base_url :: string where
  "base_url = ''https://api.crossref.org/works''"

text \<open>\<open>s.replace('\n', ' ')\<close>\<close>

definition replace_newlines :: "string \<Rightarrow> string" where
  "replace_newlines s = map (\<lambda>c. if c = CHR 0x0A then CHR '' '' else c) s"

definition request_params :: "string \<Rightarrow> params" where
  "request_params clean_title =
     \<lparr>query_title = [CHR 0x22] @ clean_title @ [CHR 0x22], rows = 3,
      select = ''DOI,title,published-print,author,container-title''\<rparr>"

subsection \<open>One candidate\<close>

text \<open>
  \<open>clean_text_for_comparison(result_title)\<close>: \<open>re.sub\<close> raises a \<open>TypeError\<close> on a value that
  is not a string.
\<close>

definition clean_json :: "json \<Rightarrow> error + string" where
  "clean_json x = (case x of JStr s \<Rightarrow> Inr (clean_text_for_comparison s) | _ \<Rightarrow> Inl TypeError)"

text \<open>\<open>str(result["published-print"].get("date-parts", [[""]])[0][0])\<close>\<close>

definition pub_year_of :: "json \<Rightarrow> error + string" where
  "pub_year_of result =
     bind_err (getitem_str result ''published-print'') (\<lambda>published_print.
     bind_err (dict_get published_print ''date-parts'' (JList [JList [JStr []]])) (\<lambda>date_parts.
     bind_err (getitem_0 date_parts) (\<lambda>first_date.
     bind_err (getitem_0 first_date) (\<lambda>y. Inr (py_str y)))))"

text \<open>
  The body of the loop for one candidate: \<open>Continue\<close> when the loop goes on to the next
  candidate, \<open>Return\<close> when the function returns. The comparison \<open>similarity > 0.85\<close> is made
  on the exact ratio.
\<close>

datatype outcome = Continue | Return json

definition try_candidate :: "string \<Rightarrow> string \<Rightarrow> json \<Rightarrow> error + outcome" where
  "try_candidate input_title_clean year result =
     bind_err (contains_str ''title'' result) (\<lambda>has_title.
     if \<not> has_title then Inr Continue
     else bind_err (getitem_str result ''title'') (\<lambda>titles.
     if \<not> truthy titles then Inr Continue
     else bind_err (getitem_0 titles) (\<lambda>result_title.
     bind_err (clean_json result_title) (\<lambda>result_title_clean.
     let similarity = ratio result_title_clean input_title_clean
     in if 85 / 100 < similarity
        then bind_err (if year \<noteq> [] then contains_str ''published-print'' result else Inr False)
               (\<lambda>check_year.
                  if check_year
                  then bind_err (pub_year_of result) (\<lambda>pub_year.
                         if pub_year \<noteq> year then Inr Continue
                         else bind_err (dict_get result ''DOI'' (JStr [])) (\<lambda>doi. Inr (Return doi)))
                  else bind_err (dict_get result ''DOI'' (JStr [])) (\<lambda>doi. Inr (Return doi)))
        else Inr Continue))))"

fun candidates_loop :: "string \<Rightarrow> string \<Rightarrow> json list \<Rightarrow> error + json" where
  "candidates_loop input_title_clean year [] = Inr (JStr [])"
| "candidates_loop input_title_clean year (result # rest) =
     bind_err (try_candidate input_title_clean year result) (\<lambda>out.
       case out of
         Continue \<Rightarrow> candidates_loop input_title_clean year rest
       | Return doi \<Rightarrow> Inr doi)"

subsection \<open>The function\<close>

text \<open>
  \<open>search_crossref_doi_try\<close> is the \<open>try\<close> block, \<open>search_crossref_doi\<close> the function with its
  \<open>except Exception\<close> clause, which returns the empty string; \<open>search_crossref_warning\<close> is the
  exception handed to \<open>st.warning\<close>, if any. The parameter \<open>authors\<close> is not used by the source.
\<close>

definition search_crossref_doi_try :: "registry \<Rightarrow> string \<Rightarrow> string \<Rightarrow> string \<Rightarrow> error + json" where
  "search_crossref_doi_try requests_get title authors year =
     (let clean_title = replace_newlines (strip title)
      in bind_err (requests_get base_url (request_params clean_title)) (\<lambda>response.
         if status_code response = 200
         then bind_err (case json_body response of None \<Rightarrow> Inl JSONDecodeError | Some r \<Rightarrow> Inr r)
                (\<lambda>results.
                   bind_err (getitem_str results ''message'') (\<lambda>message.
                   bind_err (getitem_str message ''items'') (\<lambda>items.
                   if \<not> truthy items then Inr (JStr [])
                   else (let input_title_clean = clean_text_for_comparison clean_title
                         in bind_err (iterate items) (\<lambda>candidates.
                              candidates_loop input_title_clean year candidates)))))
         else Inr (JStr [])))"

definition search_crossref_doi :: "registry \<Rightarrow> string \<Rightarrow> string \<Rightarrow> string \<Rightarrow> json" where
  "search_crossref_doi requests_get title authors year =
     (case search_crossref_doi_try requests_get title authors year of
        Inl e \<Rightarrow> JStr []
      | Inr doi \<Rightarrow> doi)"

definition search_crossref_warning :: "registry \<Rightarrow> string \<Rightarrow> string \<Rightarrow> string \<Rightarrow> error option" where
  "search_crossref_warning requests_get title authors year =
     (case search_crossref_doi_try requests_get title authors year of
        Inl e \<Rightarrow> Some e
      | Inr doi \<Rightarrow> None)"

subsection \<open>Candidates as the specification sees them\<close>

text \<open>
  \<open>registry_of\<close> is a registry that answers every query with status 200 and the given
  candidates; \<open>registry_items\<close> reads the candidates off a registry's answer to the query for
  a title, when the answer has status 200 and the expected shape. A candidate's first
  title, its similarity to the input title, a field of it and its identifier are read as
  follows.
\<close>

definition registry_of :: "json list \<Rightarrow> registry" where
  "registry_of candidates =
     (\<lambda>url ps. Inr (Response 200 (Some (JDict [(''message'', JDict [(''items'', JList candidates)])]))))"

definition registry_items :: "registry \<Rightarrow> string \<Rightarrow> json list option" where
  "registry_items requests_get title =
     (case requests_get base_url (request_params (replace_newlines (strip title))) of
        Inr (Response status (Some (JDict r))) \<Rightarrow>
          if status = 200
          then (case map_of r ''message'' of
                  Some (JDict m) \<Rightarrow>
                    (case map_of m ''items'' of Some (JList cs) \<Rightarrow> Some cs | _ \<Rightarrow> None)
                | _ \<Rightarrow> None)
          else None
      | _ \<Rightarrow> None)"

definition first_title :: "json \<Rightarrow> string option" where
  "first_title c =
     (case c of
        JDict kvs \<Rightarrow> (case map_of kvs ''title'' of Some (JList (JStr t # ts)) \<Rightarrow> Some t | _ \<Rightarrow> None)
      | _ \<Rightarrow> None)"

definition title_similarity :: "string \<Rightarrow> json \<Rightarrow> rat option" where
  "title_similarity title c =
     (case first_title c of
        None \<Rightarrow> None
      | Some t \<Rightarrow>
          Some (ratio (clean_text_for_comparison t)
                  (clean_text_for_comparison (replace_newlines (strip title)))))"

definition field :: "string \<Rightarrow> json \<Rightarrow> json option" where
  "field key c = (case c of JDict kvs \<Rightarrow> map_of kvs key | _ \<Rightarrow> None)"

definition doi_of :: "json \<Rightarrow> json" where
  "doi_of c = (case field ''DOI'' c of None \<Rightarrow> JStr [] | Some d \<Rightarrow> d)"

text \<open>
  What a candidate carries as its print-publication date. The field may be absent; it may
  be an object without date parts; it may hold date parts whose first part has a first
  component, the year; anything else cannot be read: a field that is not an object, date
  parts that are empty or not a sequence, a first part that is empty or not a sequence.
  \<open>first_of x\<close> is \<open>x[0]\<close> where that exists.
\<close>

definition first_of :: "json \<Rightarrow> json option" where
  "first_of x =
     (case x of
        JList (y # ys) \<Rightarrow> Some y
      | JStr (ch # chs) \<Rightarrow> Some (JStr [ch])
      | _ \<Rightarrow> None)"

datatype print_date = Absent | NoDateParts | YearPart json | Unreadable

definition published_print :: "json \<Rightarrow> print_date" where
  "published_print c =
     (case field ''published-print'' c of
        None \<Rightarrow> Absent
      | Some (JDict pp) \<Rightarrow>
          (case map_of pp ''date-parts'' of
             None \<Rightarrow> NoDateParts
           | Some date_parts \<Rightarrow>
               (case first_of date_parts of
                  None \<Rightarrow> Unreadable
                | Some first_date \<Rightarrow>
                    (case first_of first_date of None \<Rightarrow> Unreadable | Some y \<Rightarrow> YearPart y)))
      | Some other \<Rightarrow> Unreadable)"

text \<open>
  A candidate lacks a title when it is an object without a \<open>title\<close> member, or with one
  that is empty: an empty list, string or object, \<open>None\<close>, \<open>False\<close> or zero. Its similarity is
  low when it has a title of similarity at most 0.85 and high when the similarity exceeds
  0.85.
\<close>

definition no_title :: "json \<Rightarrow> bool" where
  "no_title c =
     (case c of
        JDict kvs \<Rightarrow>
          (case map_of kvs ''title'' of
             None \<Rightarrow> True
           | Some t \<Rightarrow>
               t \<in> set [JList [], JStr [], JDict [], JNull, JBool False, JInt 0,
                          JFloat ''0.0'', JFloat ''-0.0''])
      | _ \<Rightarrow> False)"

definition low_similarity :: "string \<Rightarrow> json \<Rightarrow> bool" where
  "low_similarity title c = (case title_similarity title c of Some s \<Rightarrow> s \<le> 85 / 100 | None \<Rightarrow> False)"

definition high_similarity :: "string \<Rightarrow> json \<Rightarrow> bool" where
  "high_similarity title c = (case title_similarity title c of Some s \<Rightarrow> 85 / 100 < s | None \<Rightarrow> False)"

text \<open>
  The year filter accepts a candidate when there is no hint, when the candidate has no
  print-publication field, or when its year, as a string, is the hint. It rejects a
  candidate when there is a hint and the candidate's year differs from it, the year of a
  print-publication object without date parts being read as the empty string.
\<close>

definition year_accepts :: "string \<Rightarrow> json \<Rightarrow> bool" where
  "year_accepts year c =
     (year = [] \<or>
      (case published_print c of Absent \<Rightarrow> True | YearPart y \<Rightarrow> py_str y = year | _ \<Rightarrow> False))"

definition year_rejects :: "string \<Rightarrow> json \<Rightarrow> bool" where
  "year_rejects year c =
     (year \<noteq> [] \<and>
      (case published_print c of NoDateParts \<Rightarrow> True | YearPart y \<Rightarrow> py_str y \<noteq> year | _ \<Rightarrow> False))"

text \<open>
  A candidate is rejected when it lacks a title, when its similarity is low, or when its
  similarity is high and the year filter rejects it; it is accepted when its similarity is
  high and the year filter accepts it.
\<close>

definition rejected :: "string \<Rightarrow> string \<Rightarrow> json \<Rightarrow> bool" where
  "rejected title year c =
     (no_title c \<or> low_similarity title c \<or> (high_similarity title c \<and> year_rejects year c))"

definition accepted :: "string \<Rightarrow> string \<Rightarrow> json \<Rightarrow> bool" where
  "accepted title year c = (high_similarity title c \<and> year_accepts year c)"

subsection \<open>The loop over the candidates\<close>

lemma search_try_items:
  assumes "registry_items requests_get title = Some cs"
  shows "search_crossref_doi_try requests_get title authors year =
         candidates_loop (clean_text_for_comparison (replace_newlines (strip title))) year cs"
proof -
  let ?q = "requests_get base_url (request_params (replace_newlines (strip title)))"
  from assms obtain status r where q: "?q = Inr (Response status (Some (JDict r)))"
    by (auto simp: registry_items_def split: sum.splits response.splits option.splits json.splits)
  with assms have st: "status = 200"
    by (auto simp: registry_items_def split: if_splits)
  with assms q obtain m where m: "map_of r ''message'' = Some (JDict m)"
    by (auto simp: registry_items_def split: option.splits json.splits)
  with assms q st have i: "map_of m ''items'' = Some (JList cs)"
    by (auto simp: registry_items_def split: option.splits json.splits)
  show ?thesis
    by (cases cs) (simp_all add: search_crossref_doi_try_def Let_def bind_err_def q st m i)
qed

lemma first_title_fields:
  assumes "first_title c = Some t"
  obtains kvs ts where "c = JDict kvs" "map_of kvs ''title'' = Some (JList (JStr t # ts))"
  using assms
  by (auto simp: first_title_def split: json.splits option.splits list.splits)

lemma try_candidate_titled:
  assumes "first_title c = Some t"
  shows "try_candidate input_title_clean year c =
     (if 85 / 100 < ratio (clean_text_for_comparison t) input_title_clean
      then bind_err (if year \<noteq> [] then contains_str ''published-print'' c else Inr False)
             (\<lambda>check_year.
                if check_year
                then bind_err (pub_year_of c) (\<lambda>pub_year.
                       if pub_year \<noteq> year then Inr Continue
                       else bind_err (dict_get c ''DOI'' (JStr [])) (\<lambda>doi. Inr (Return doi)))
                else bind_err (dict_get c ''DOI'' (JStr [])) (\<lambda>doi. Inr (Return doi)))
      else Inr Continue)"
proof -
  from assms obtain kvs ts where c: "c = JDict kvs" "map_of kvs ''title'' = Some (JList (JStr t # ts))"
    by (rule first_title_fields)
  show ?thesis
    unfolding c(1) using c(2)
    by (simp add: try_candidate_def bind_err_def clean_json_def Let_def)
qed

lemma try_candidate_no_title:
  "no_title c \<Longrightarrow> try_candidate input_title_clean year c = Inr Continue"
  by (auto simp: no_title_def try_candidate_def bind_err_def split: json.splits option.splits)

lemma try_candidate_low:
  "low_similarity title c \<Longrightarrow>
   try_candidate (clean_text_for_comparison (replace_newlines (strip title))) year c = Inr Continue"
  by (auto simp: low_similarity_def title_similarity_def try_candidate_titled split: option.splits)

lemma dict_get_doi:
  "first_title c = Some t \<Longrightarrow> dict_get c ''DOI'' (JStr []) = Inr (doi_of c)"
  by (erule first_title_fields) (simp add: doi_of_def field_def split: option.splits)

lemma contains_published_print:
  "first_title c = Some t \<Longrightarrow>
   contains_str ''published-print'' c = Inr (field ''published-print'' c \<noteq> None)"
  by (erule first_title_fields) (simp add: field_def)

lemma published_print_Absent:
  "published_print c = Absent \<longleftrightarrow> field ''published-print'' c = None"
  by (auto simp: published_print_def split: option.splits json.splits)

lemma getitem_0_None: "first_of x = None \<Longrightarrow> \<exists>e. getitem_0 x = Inl e"
  by (cases x) (auto simp: first_of_def split: list.splits)

lemma getitem_0_Some: "first_of x = Some y \<Longrightarrow> getitem_0 x = Inr y"
  by (cases x) (auto simp: first_of_def split: list.splits)

lemma pub_year_of_NoDateParts:
  "published_print c = NoDateParts \<Longrightarrow> pub_year_of c = Inr []"
  by (auto simp: published_print_def field_def pub_year_of_def bind_err_def
      split: json.splits option.splits)

lemma pub_year_of_YearPart:
  assumes "published_print c = YearPart y"
  shows "pub_year_of c = Inr (py_str y)"
proof -
  from assms obtain kvs pp date_parts first_date where c: "c = JDict kvs"
    and pp: "map_of kvs ''published-print'' = Some (JDict pp)"
    and dp: "map_of pp ''date-parts'' = Some date_parts"
    and fd: "first_of date_parts = Some first_date" and y: "first_of first_date = Some y"
    by (auto simp: published_print_def field_def split: json.splits option.splits)
  show ?thesis
    by (simp add: c pp dp pub_year_of_def bind_err_def getitem_0_Some [OF fd] getitem_0_Some [OF y])
qed

lemma pub_year_of_Unreadable:
  assumes "published_print c = Unreadable"
  shows "\<exists>e. pub_year_of c = Inl e"
proof -
  from assms obtain kvs v where c: "c = JDict kvs" and v: "map_of kvs ''published-print'' = Some v"
    by (auto simp: published_print_def field_def split: json.splits option.splits)
  show ?thesis
  proof (cases "\<exists>pp. v = JDict pp")
    case False
    then have "dict_get v ''date-parts'' (JList [JList [JStr []]]) = Inl AttributeError"
      by (cases v) auto
    then show ?thesis by (simp add: c v pub_year_of_def bind_err_def)
  next
    case True
    then obtain pp where pp: "v = JDict pp" by blast
    with assms c v obtain date_parts where dp: "map_of pp ''date-parts'' = Some date_parts"
      by (auto simp: published_print_def field_def split: option.splits)
    show ?thesis
    proof (cases "first_of date_parts")
      case None
      from getitem_0_None [OF this] obtain e where "getitem_0 date_parts = Inl e" ..
      then show ?thesis by (simp add: c v pp dp pub_year_of_def bind_err_def)
    next
      case (Some first_date)
      with assms c v pp dp have "first_of first_date = None"
        by (auto simp: published_print_def field_def split: option.splits)
      from getitem_0_None [OF this] obtain e where "getitem_0 first_date = Inl e" ..
      then show ?thesis
        by (simp add: c v pp dp pub_year_of_def bind_err_def getitem_0_Some [OF Some])
    qed
  qed
qed

lemma high_similarity_title:
  assumes "high_similarity title c"
  obtains t where "first_title c = Some t"
    and "85 / 100 < ratio (clean_text_for_comparison t)
           (clean_text_for_comparison (replace_newlines (strip title)))"
  using assms by (auto simp: high_similarity_def title_similarity_def split: option.splits)

lemma try_candidate_accepted:
  assumes "accepted title year c"
  shows "try_candidate (clean_text_for_comparison (replace_newlines (strip title))) year c =
         Inr (Return (doi_of c))"
proof -
  from assms have hi: "high_similarity title c" and ya: "year_accepts year c"
    by (simp_all add: accepted_def)
  from hi obtain t where t: "first_title c = Some t"
    and r: "85 / 100 < ratio (clean_text_for_comparison t)
              (clean_text_for_comparison (replace_newlines (strip title)))"
    by (rule high_similarity_title)
  show ?thesis
  proof (cases "year = [] \<or> published_print c = Absent")
    case True
    with t r show ?thesis
      by (auto simp: try_candidate_titled contains_published_print dict_get_doi bind_err_def
          published_print_Absent)
  next
    case False
    with ya obtain y where y: "published_print c = YearPart y" "py_str y = year"
      by (auto simp: year_accepts_def split: print_date.splits)
    from False have "field ''published-print'' c \<noteq> None" by (simp add: published_print_Absent)
    with False t r y show ?thesis
      by (simp add: try_candidate_titled contains_published_print dict_get_doi bind_err_def
          pub_year_of_YearPart)
  qed
qed

lemma try_candidate_year_rejects:
  assumes "high_similarity title c" and "year_rejects year c"
  shows "try_candidate (clean_text_for_comparison (replace_newlines (strip title))) year c =
         Inr Continue"
proof -
  from assms(1) obtain t where t: "first_title c = Some t"
    and r: "85 / 100 < ratio (clean_text_for_comparison t)
              (clean_text_for_comparison (replace_newlines (strip title)))"
    by (rule high_similarity_title)
  from assms(2) have year: "year \<noteq> []" by (simp add: year_rejects_def)
  from assms(2) have pp: "field ''published-print'' c \<noteq> None"
    by (auto simp: year_rejects_def published_print_Absent [symmetric])
  from assms(2) obtain py where "pub_year_of c = Inr py" "py \<noteq> year"
    by (auto simp: year_rejects_def pub_year_of_NoDateParts pub_year_of_YearPart
        split: print_date.splits)
  with t r pp year show ?thesis
    by (simp add: try_candidate_titled contains_published_print bind_err_def)
qed

lemma try_candidate_unreadable:
  assumes "high_similarity title c" and "year \<noteq> []" and "published_print c = Unreadable"
  shows "\<exists>e. try_candidate (clean_text_for_comparison (replace_newlines (strip title))) year c = Inl e"
proof -
  from assms(1) obtain t where t: "first_title c = Some t"
    and r: "85 / 100 < ratio (clean_text_for_comparison t)
              (clean_text_for_comparison (replace_newlines (strip title)))"
    by (rule high_similarity_title)
  from assms(3) have pp: "field ''published-print'' c \<noteq> None"
    by (auto simp: published_print_Absent [symmetric])
  from pub_year_of_Unreadable [OF assms(3)] obtain e where "pub_year_of c = Inl e" ..
  with t r pp assms(2) show ?thesis
    by (simp add: try_candidate_titled contains_published_print bind_err_def)
qed

lemma try_candidate_rejected:
  "rejected title year c \<Longrightarrow>
   try_candidate (clean_text_for_comparison (replace_newlines (strip title))) year c = Inr Continue"
  unfolding rejected_def
  using try_candidate_no_title try_candidate_low try_candidate_year_rejects by blast

lemma candidates_loop_skip:
  "list_all (rejected title year) pre \<Longrightarrow>
   candidates_loop (clean_text_for_comparison (replace_newlines (strip title))) year (pre @ rest) =
   candidates_loop (clean_text_for_comparison (replace_newlines (strip title))) year rest"
  by (induction pre) (simp_all add: try_candidate_rejected bind_err_def)

lemma search_skip:
  assumes "registry_items requests_get title = Some (pre @ rest)"
    and "list_all (rejected title year) pre"
  shows "search_crossref_doi_try requests_get title authors year =
         candidates_loop (clean_text_for_comparison (replace_newlines (strip title))) year rest"
  by (simp add: search_try_items [OF assms(1)] candidates_loop_skip [OF assms(2)])

text \<open>
  C5. The candidates are examined in the order of the registry's answer. A candidate that
  lacks a title, whose similarity is at most 0.85, or that the year filter rejects has no
  influence on the result: after a run \<open>pre\<close> of such candidates the resolver returns what it
  returns on the remaining candidates alone. So it returns the empty string when every
  candidate is rejected, and the identifier of the first accepted candidate \<open>c\<close> (the empty
  string when \<open>c\<close> has no identifier field) when all candidates before \<open>c\<close> are rejected,
  whatever follows \<open>c\<close>.
\<close>

theorem search_crossref_doi_first_accepted:
  assumes "registry_items requests_get title = Some cs"
  shows "(list_all (rejected title year) cs \<longrightarrow>
            search_crossref_doi requests_get title authors year = JStr [])
       \<and> (cs = pre @ c # post \<and> list_all (rejected title year) pre \<and> accepted title year c \<longrightarrow>
            search_crossref_doi requests_get title authors year = doi_of c)
       \<and> (cs = pre @ rest \<and> list_all (rejected title year) pre \<and>
          registry_items requests_get' title = Some rest \<longrightarrow>
            search_crossref_doi requests_get title authors year =
            search_crossref_doi requests_get' title authors year)"
proof (intro conjI impI)
  assume "list_all (rejected title year) cs"
  with assms have "search_crossref_doi_try requests_get title authors year =
      candidates_loop (clean_text_for_comparison (replace_newlines (strip title))) year []"
    using search_skip [of requests_get title cs "[]"] by simp
  then show "search_crossref_doi requests_get title authors year = JStr []"
    by (simp add: search_crossref_doi_def)
next
  assume a: "cs = pre @ c # post \<and> list_all (rejected title year) pre \<and> accepted title year c"
  with assms have "search_crossref_doi_try requests_get title authors year =
      candidates_loop (clean_text_for_comparison (replace_newlines (strip title))) year (c # post)"
    using search_skip [of requests_get title pre "c # post"] by simp
  with a show "search_crossref_doi requests_get title authors year = doi_of c"
    by (simp add: search_crossref_doi_def try_candidate_accepted bind_err_def)
next
  assume a: "cs = pre @ rest \<and> list_all (rejected title year) pre \<and>
             registry_items requests_get' title = Some rest"
  with assms have "search_crossref_doi_try requests_get title authors year =
      candidates_loop (clean_text_for_comparison (replace_newlines (strip title))) year rest"
    using search_skip [of requests_get title pre rest] by simp
  moreover from a have "search_crossref_doi_try requests_get' title authors year =
      candidates_loop (clean_text_for_comparison (replace_newlines (strip title))) year rest"
    by (simp add: search_try_items)
  ultimately show "search_crossref_doi requests_get title authors year =
                   search_crossref_doi requests_get' title authors year"
    by (simp add: search_crossref_doi_def)
qed

text \<open>
  C6, amended. With a year hint and a candidate \<open>c\<close> of similarity above 0.85 at the head of
  the list, the result is decided by what \<open>c\<close> carries as its print-publication date. Without
  the field, \<open>c\<close> is accepted whatever the hint. With a year, \<open>c\<close> is accepted when the year, as
  a string, is the hint, and otherwise rejected: the result is that of the remaining
  candidates. With a print-publication object without date parts, the year is read as the
  empty string and \<open>c\<close> is rejected in the same way. With a field that cannot be read, the
  lookup raises: the resolver returns the empty string, whatever the remaining candidates
  are, and a warning is shown.
\<close>

theorem search_crossref_doi_year_filter:
  assumes "registry_items requests_get title = Some (c # cs)"
    and "registry_items requests_get' title = Some cs"
    and "high_similarity title c" and "year \<noteq> []"
  shows "search_crossref_doi requests_get title authors year =
           (case published_print c of
              Absent \<Rightarrow> doi_of c
            | NoDateParts \<Rightarrow> search_crossref_doi requests_get' title authors year
            | YearPart y \<Rightarrow>
                if py_str y = year then doi_of c
                else search_crossref_doi requests_get' title authors year
            | Unreadable \<Rightarrow> JStr [])
       \<and> (published_print c = Unreadable \<longrightarrow>
            search_crossref_warning requests_get title authors year \<noteq> None)"
proof -
  let ?itc = "clean_text_for_comparison (replace_newlines (strip title))"
  note s = search_try_items [OF assms(1)] search_try_items [OF assms(2)]
  have acc: "search_crossref_doi requests_get title authors year = doi_of c"
    if "year_accepts year c"
  proof -
    from assms(3) that have "accepted title year c" by (simp add: accepted_def)
    from try_candidate_accepted [OF this] show ?thesis
      by (simp add: search_crossref_doi_def s bind_err_def)
  qed
  have rej: "search_crossref_doi requests_get title authors year =
             search_crossref_doi requests_get' title authors year"
    if "year_rejects year c"
  proof -
    from try_candidate_year_rejects [OF assms(3) that] show ?thesis
      by (simp add: search_crossref_doi_def s bind_err_def)
  qed
  have unr: "search_crossref_doi requests_get title authors year = JStr [] \<and>
             search_crossref_warning requests_get title authors year \<noteq> None"
    if "published_print c = Unreadable"
  proof -
    from try_candidate_unreadable [OF assms(3,4) that] obtain e
      where "try_candidate ?itc year c = Inl e" ..
    then show ?thesis
      by (simp add: search_crossref_doi_def search_crossref_warning_def s bind_err_def)
  qed
  show ?thesis
  proof (cases "published_print c")
    case Absent
    then have "year_accepts year c" by (simp add: year_accepts_def)
    with Absent show ?thesis by (simp add: acc)
  next
    case NoDateParts
    with assms(4) have "year_rejects year c" by (simp add: year_rejects_def)
    with NoDateParts show ?thesis by (simp add: rej)
  next
    case (YearPart y)
    show ?thesis
    proof (cases "py_str y = year")
      case True
      with YearPart have "year_accepts year c" by (simp add: year_accepts_def)
      with YearPart True show ?thesis by (simp add: acc)
    next
      case False
      with YearPart assms(4) have "year_rejects year c" by (simp add: year_rejects_def)
      with YearPart False show ?thesis by (simp add: rej)
    qed
  next
    case Unreadable
    with unr show ?thesis by simp
  qed
qed

subsection \<open>Failures\<close>

text \<open>
  C7. The function returns a value for every registry, title and hints. It returns the
  empty string when the request raises, when the status is not 200, when the body is not
  JSON, when the body has no \<open>message\<close> member or is not an object, and whenever any step of
  the \<open>try\<close> block raises; the exception is then the one shown in the warning.
\<close>

theorem search_crossref_doi_never_raises:
  "(requests_get base_url (request_params (replace_newlines (strip title))) = Inl e \<longrightarrow>
      search_crossref_doi requests_get title authors year = JStr [])
 \<and> (requests_get base_url (request_params (replace_newlines (strip title))) = Inr (Response status body)
      \<and> status \<noteq> 200 \<longrightarrow>
      search_crossref_doi requests_get title authors year = JStr [])
 \<and> (requests_get base_url (request_params (replace_newlines (strip title))) = Inr (Response 200 None) \<longrightarrow>
      search_crossref_doi requests_get title authors year = JStr [])
 \<and> (requests_get base_url (request_params (replace_newlines (strip title))) =
        Inr (Response 200 (Some results)) \<and> getitem_str results ''message'' = Inl e'' \<longrightarrow>
      search_crossref_doi requests_get title authors year = JStr [])
 \<and> (search_crossref_doi_try requests_get title authors year = Inl e' \<longrightarrow>
      search_crossref_doi requests_get title authors year = JStr [] \<and>
      search_crossref_warning requests_get title authors year = Some e')"
  by (simp add: search_crossref_doi_def search_crossref_warning_def search_crossref_doi_try_def
      bind_err_def Let_def)

subsection \<open>Examples\<close>

text \<open>
  \<open>titled t doi extra\<close> is a candidate with the single title \<open>t\<close>, the identifier \<open>doi\<close> and the
  further members \<open>extra\<close>; \<open>print_parts parts\<close> is a print-publication member with the given
  date parts.
\<close>

definition titled :: "string \<Rightarrow> string \<Rightarrow> (string \<times> json) list \<Rightarrow> json" where
  "titled t doi extra = JDict ([(''title'', JList [JStr t]), (''DOI'', JStr doi)] @ extra)"

definition print_parts :: "json \<Rightarrow> string \<times> json" where
  "print_parts parts = (''published-print'', JDict [(''date-parts'', parts)])"

lemma registry_items_registry_of: "registry_items (registry_of cs) title = Some cs"
  by (simp add: registry_items_def registry_of_def)

lemma str_int_2019: "str_int 2019 = ''2019''"
  by (simp add: str_int_def str_nat.simps digit_char_def)

lemma str_int_2020: "str_int 2020 = ''2020''"
  by (simp add: str_int_def str_nat.simps digit_char_def)

lemma published_print_titled:
  "published_print (titled t doi []) = Absent"
  "published_print (titled t doi [(''published-print'', JDict [])]) = NoDateParts"
  "published_print (titled t doi [print_parts (JList [JList (y # ys)])]) = YearPart y"
  "published_print (titled t doi [print_parts (JList [])]) = Unreadable"
  by (simp_all add: published_print_def field_def titled_def print_parts_def first_of_def)

text \<open>
  The resolver on the title \<open>abcdefghijklmnopqrst\<close> with the hint \<open>2020\<close>. Four candidates
  are rejected: one without a title member, one with an empty list of titles, one whose
  title has similarity exactly 0.85, one with the same title and the print year 2019. On
  these four alone the result is the empty string; followed by a candidate with the title
  in capitals and no print date, the result is that candidate's identifier, whatever comes
  after it.
\<close>

theorem search_crossref_doi_first_accepted_witness:
  "title_similarity ''abcdefghijklmnopqrst'' (titled ''abcdefghijklmnopqxyz'' ''10.1/b'' []) =
     Some (85 / 100)
   \<and> search_crossref_doi
        (registry_of [JDict [(''DOI'', JStr ''10.1/a'')],
                      JDict [(''title'', JList []), (''DOI'', JStr ''10.1/f'')],
                      titled ''abcdefghijklmnopqxyz'' ''10.1/b'' [],
                      titled ''abcdefghijklmnopqrst'' ''10.1/c'' [print_parts (JList [JList [JInt 2019]])]])
        ''abcdefghijklmnopqrst'' [] ''2020'' = JStr []
   \<and> search_crossref_doi
        (registry_of ([JDict [(''DOI'', JStr ''10.1/a'')],
                       JDict [(''title'', JList []), (''DOI'', JStr ''10.1/f'')],
                       titled ''abcdefghijklmnopqxyz'' ''10.1/b'' [],
                       titled ''abcdefghijklmnopqrst'' ''10.1/c'' [print_parts (JList [JList [JInt 2019]])]] @
                      titled ''ABCDEFGHIJKLMNOPQRST!'' ''10.1/d'' [] #
                      [titled ''abcdefghijklmnopqrst'' ''10.1/e'' []]))
        ''abcdefghijklmnopqrst'' [] ''2020'' = JStr ''10.1/d''"
proof -
  let ?t = "''abcdefghijklmnopqrst''"
  let ?p0 = "JDict [(''DOI'', JStr ''10.1/a'')]"
  let ?p1 = "JDict [(''title'', JList []), (''DOI'', JStr ''10.1/f'')]"
  let ?p2 = "titled ''abcdefghijklmnopqxyz'' ''10.1/b'' []"
  let ?p3 = "titled ''abcdefghijklmnopqrst'' ''10.1/c'' [print_parts (JList [JList [JInt 2019]])]"
  let ?c = "titled ''ABCDEFGHIJKLMNOPQRST!'' ''10.1/d'' []"
  let ?q = "titled ''abcdefghijklmnopqrst'' ''10.1/e'' []"
  have s2: "title_similarity ?t ?p2 = Some (85 / 100)" by code_simp
  have t: "clean_text_for_comparison (replace_newlines (strip ?t)) = ?t"
    "clean_text_for_comparison ''ABCDEFGHIJKLMNOPQRST!'' = ?t"
    "clean_text_for_comparison ?t = ?t"
    by code_simp+
  have s3: "title_similarity ?t ?p3 = Some 1"
    by (simp add: title_similarity_def first_title_def titled_def t ratio_self)
  have sc: "title_similarity ?t ?c = Some 1"
    by (simp add: title_similarity_def first_title_def titled_def t ratio_self)
  have r0: "rejected ?t ''2020'' ?p0" by (simp add: rejected_def no_title_def)
  have r1: "rejected ?t ''2020'' ?p1" by (simp add: rejected_def no_title_def)
  from s2 have r2: "rejected ?t ''2020'' ?p2" by (simp add: rejected_def low_similarity_def)
  from s3 have r3: "rejected ?t ''2020'' ?p3"
    by (simp add: rejected_def high_similarity_def year_rejects_def published_print_titled
        str_int_2019)
  from sc have a: "accepted ?t ''2020'' ?c"
    by (simp add: accepted_def high_similarity_def year_accepts_def published_print_titled)
  from r0 r1 r2 r3 have pre: "list_all (rejected ?t ''2020'') [?p0, ?p1, ?p2, ?p3]" by simp
  have d: "doi_of ?c = JStr ''10.1/d''" by (simp add: doi_of_def field_def titled_def)
  note n = search_crossref_doi_first_accepted [OF registry_items_registry_of]
  from n [where cs = "[?p0, ?p1, ?p2, ?p3]" and title = ?t and year = "''2020''" and authors = "[]",
      THEN conjunct1, rule_format, OF pre]
  have 1: "search_crossref_doi (registry_of [?p0, ?p1, ?p2, ?p3]) ?t [] ''2020'' = JStr []" .
  from n [where cs = "[?p0, ?p1, ?p2, ?p3] @ ?c # [?q]" and title = ?t and year = "''2020''"
      and authors = "[]" and pre = "[?p0, ?p1, ?p2, ?p3]" and c = ?c and post = "[?q]",
      THEN conjunct2, THEN conjunct1, rule_format] pre a d
  have 2: "search_crossref_doi (registry_of ([?p0, ?p1, ?p2, ?p3] @ ?c # [?q])) ?t [] ''2020'' =
           JStr ''10.1/d''"
    by simp
  from s2 1 2 show ?thesis by blast
qed

text \<open>
  C6, as the claim words it: a candidate without a structured year passes the year filter.
  A candidate whose print-publication object has no date parts carries no year; without a
  hint it is accepted, yet with the hint \<open>2020\<close> it is rejected (its year is read as the
  empty string) and the next candidate is returned. A candidate whose date parts are empty
  carries no year either; with the hint the lookup raises, and the result is the empty
  string although the next candidate would be accepted.
\<close>

theorem year_filter_counterexample:
  "published_print (titled ''ab'' ''10.1/x'' [(''published-print'', JDict [])]) = NoDateParts
   \<and> search_crossref_doi
        (registry_of [titled ''ab'' ''10.1/x'' [(''published-print'', JDict [])],
                      titled ''ab'' ''10.1/b'' []])
        ''ab'' [] [] = JStr ''10.1/x''
   \<and> search_crossref_doi
        (registry_of [titled ''ab'' ''10.1/x'' [(''published-print'', JDict [])],
                      titled ''ab'' ''10.1/b'' []])
        ''ab'' [] ''2020'' = JStr ''10.1/b''
   \<and> published_print (titled ''ab'' ''10.1/y'' [print_parts (JList [])]) = Unreadable
   \<and> search_crossref_doi
        (registry_of [titled ''ab'' ''10.1/y'' [print_parts (JList [])], titled ''ab'' ''10.1/b'' []])
        ''ab'' [] ''2020'' = JStr []
   \<and> search_crossref_doi (registry_of [titled ''ab'' ''10.1/b'' []]) ''ab'' [] ''2020'' =
        JStr ''10.1/b''"
  by code_simp

text \<open>
  The year filter with the hint \<open>2020\<close> on a first candidate of similarity 1: accepted
  without a print date and with the year 2020; rejected, so that the second candidate is
  returned, with the year 2019 and with a print-publication object without date parts;
  the empty string and a warning with empty date parts.
\<close>

theorem search_crossref_doi_year_filter_witness:
  "search_crossref_doi (registry_of [titled ''ab'' ''10.1/a'' [], titled ''ab'' ''10.1/b'' []])
     ''ab'' [] ''2020'' = JStr ''10.1/a''
   \<and> search_crossref_doi
       (registry_of [titled ''ab'' ''10.1/a'' [print_parts (JList [JList [JInt 2020, JInt 5]])],
                     titled ''ab'' ''10.1/b'' []])
       ''ab'' [] ''2020'' = JStr ''10.1/a''
   \<and> search_crossref_doi
       (registry_of [titled ''ab'' ''10.1/a'' [print_parts (JList [JList [JInt 2019, JInt 5]])],
                     titled ''ab'' ''10.1/b'' []])
       ''ab'' [] ''2020'' = search_crossref_doi (registry_of [titled ''ab'' ''10.1/b'' []]) ''ab'' [] ''2020''
   \<and> search_crossref_doi
       (registry_of [titled ''ab'' ''10.1/a'' [(''published-print'', JDict [])],
                     titled ''ab'' ''10.1/b'' []])
       ''ab'' [] ''2020'' = search_crossref_doi (registry_of [titled ''ab'' ''10.1/b'' []]) ''ab'' [] ''2020''
   \<and> search_crossref_doi (registry_of [titled ''ab'' ''10.1/b'' []]) ''ab'' [] ''2020'' = JStr ''10.1/b''
   \<and> search_crossref_doi
       (registry_of [titled ''ab'' ''10.1/a'' [print_parts (JList [])], titled ''ab'' ''10.1/b'' []])
       ''ab'' [] ''2020'' = JStr []
   \<and> search_crossref_warning
       (registry_of [titled ''ab'' ''10.1/a'' [print_parts (JList [])], titled ''ab'' ''10.1/b'' []])
       ''ab'' [] ''2020'' \<noteq> None"
proof -
  let ?b = "titled ''ab'' ''10.1/b'' []"
  have y: "''2020'' \<noteq> []" by simp
  have sim: "title_similarity ''ab'' (titled ''ab'' doi extra) = Some 1" for doi extra
  proof -
    have "first_title (titled ''ab'' doi extra) = Some ''ab''"
      by (simp add: first_title_def titled_def)
    moreover have "replace_newlines (strip ''ab'') = ''ab''" by code_simp
    ultimately show ?thesis by (simp add: title_similarity_def ratio_self)
  qed
  have hi: "high_similarity ''ab'' (titled ''ab'' doi extra)" for doi extra
    by (simp add: high_similarity_def sim)
  have d: "doi_of (titled t doi extra) = JStr doi" for t doi extra
    by (simp add: doi_of_def field_def titled_def)
  note r = registry_items_registry_of
  from search_crossref_doi_year_filter [OF r r hi [of "''10.1/a''" "[]"] y,
      where cs = "[?b]" and authors = "[]"]
  have 1: "search_crossref_doi (registry_of [titled ''ab'' ''10.1/a'' [], ?b]) ''ab'' [] ''2020'' =
           JStr ''10.1/a''"
    by (simp add: published_print_titled d)
  from search_crossref_doi_year_filter [OF r r hi [of "''10.1/a''" "[print_parts (JList [JList [JInt 2020, JInt 5]])]"] y,
      where cs = "[?b]" and authors = "[]"]
  have 2: "search_crossref_doi
             (registry_of [titled ''ab'' ''10.1/a'' [print_parts (JList [JList [JInt 2020, JInt 5]])], ?b])
             ''ab'' [] ''2020'' = JStr ''10.1/a''"
    by (simp add: published_print_titled d str_int_2020)
  from search_crossref_doi_year_filter [OF r r hi [of "''10.1/a''" "[print_parts (JList [JList [JInt 2019, JInt 5]])]"] y,
      where cs = "[?b]" and authors = "[]"]
  have 3: "search_crossref_doi
             (registry_of [titled ''ab'' ''10.1/a'' [print_parts (JList [JList [JInt 2019, JInt 5]])], ?b])
             ''ab'' [] ''2020'' = search_crossref_doi (registry_of [?b]) ''ab'' [] ''2020''"
    by (simp add: published_print_titled d str_int_2019)
  from search_crossref_doi_year_filter [OF r r hi [of "''10.1/a''" "[(''published-print'', JDict [])]"] y,
      where cs = "[?b]" and authors = "[]"]
  have 4: "search_crossref_doi
             (registry_of [titled ''ab'' ''10.1/a'' [(''published-print'', JDict [])], ?b])
             ''ab'' [] ''2020'' = search_crossref_doi (registry_of [?b]) ''ab'' [] ''2020''"
    by (simp add: published_print_titled d)
  from search_crossref_doi_year_filter [OF r r hi [of "''10.1/b''" "[]"] y,
      where cs = "[]" and authors = "[]"]
  have 5: "search_crossref_doi (registry_of [?b]) ''ab'' [] ''2020'' = JStr ''10.1/b''"
    by (simp add: published_print_titled d)
  from search_crossref_doi_year_filter [OF r r hi [of "''10.1/a''" "[print_parts (JList [])]"] y,
      where cs = "[?b]" and authors = "[]"]
  have 6: "search_crossref_doi
             (registry_of [titled ''ab'' ''10.1/a'' [print_parts (JList [])], ?b])
             ''ab'' [] ''2020'' = JStr []
         \<and> search_crossref_warning
             (registry_of [titled ''ab'' ''10.1/a'' [print_parts (JList [])], ?b])
             ''ab'' [] ''2020'' \<noteq> None"
    by (simp add: published_print_titled d)
  from 1 2 3 4 5 6 show ?thesis by blast
qed

theorem search_crossref_doi_never_raises_witness:
  "search_crossref_doi (\<lambda>url ps. Inl RequestException) ''ab'' [] [] = JStr []
   \<and> search_crossref_doi (\<lambda>url ps. Inr (Response 404 None)) ''ab'' [] [] = JStr []
   \<and> search_crossref_doi (\<lambda>url ps. Inr (Response 200 None)) ''ab'' [] [] = JStr []
   \<and> search_crossref_doi (\<lambda>url ps. Inr (Response 200 (Some (JList [])))) ''ab'' [] [] = JStr []
   \<and> search_crossref_warning (\<lambda>url ps. Inr (Response 200 (Some (JList [])))) ''ab'' [] [] = Some TypeError"
proof -
  have t: "search_crossref_doi_try (\<lambda>url ps. Inr (Response 200 (Some (JList [])))) ''ab'' [] [] =
           Inl TypeError"
    by (simp add: search_crossref_doi_try_def bind_err_def Let_def)
  note n = search_crossref_doi_never_raises
  from n [where requests_get = "\<lambda>url ps. Inl RequestException" and title = "''ab''"
      and e = RequestException and authors = "[]" and year = "[]"]
  have 1: "search_crossref_doi (\<lambda>url ps. Inl RequestException) ''ab'' [] [] = JStr []" by simp
  from n [where requests_get = "\<lambda>url ps. Inr (Response 404 None)" and title = "''ab''"
      and status = 404 and body = None and authors = "[]" and year = "[]"]
  have 2: "search_crossref_doi (\<lambda>url ps. Inr (Response 404 None)) ''ab'' [] [] = JStr []" by simp
  from n [where requests_get = "\<lambda>url ps. Inr (Response 200 None)" and title = "''ab''"
      and authors = "[]" and year = "[]"]
  have 3: "search_crossref_doi (\<lambda>url ps. Inr (Response 200 None)) ''ab'' [] [] = JStr []" by simp
  from n [where requests_get = "\<lambda>url ps. Inr (Response 200 (Some (JList [])))" and title = "''ab''"
      and authors = "[]" and year = "[]" and e' = TypeError] t
  have 4: "search_crossref_doi (\<lambda>url ps. Inr (Response 200 (Some (JList [])))) ''ab'' [] [] = JStr []
         \<and> search_crossref_warning (\<lambda>url ps. Inr (Response 200 (Some (JList [])))) ''ab'' [] [] = Some TypeError"
    by simp
  from 1 2 3 4 show ?thesis by blast
qed


section \<open>The DOI URL formatter\<close>

definition create_doi_url :: "string \<Rightarrow> string" where
  "create_doi_url doi =
     (if doi \<noteq> [] \<and> startswith doi ''10.'' then ''https://doi.org/'' @ doi else [])"

lemma startswith_prefix: "startswith s p = prefix p s"
proof
  assume "startswith s p"
  then have "take (length p) s = p" by (simp add: startswith_def)
  then show "prefix p s" by (metis take_is_prefix)
next
  assume "prefix p s"
  then obtain zs where "s = p @ zs" by (auto simp: prefix_def)
  then show "startswith s p" by (simp add: startswith_def)
qed

text \<open>
  C10. For every string \<open>d\<close>, \<open>create_doi_url d\<close> is \<open>https://doi.org/\<close> followed by \<open>d\<close>
  exactly when \<open>d\<close> is non-empty and begins with \<open>10.\<close>, and the empty string otherwise;
  the three examples of the specification are instances. The function is a function of its
  argument alone.
\<close>

theorem create_doi_url_spec:
  "create_doi_url d = (if d \<noteq> [] \<and> prefix ''10.'' d then ''https://doi.org/'' @ d else [])
   \<and> create_doi_url ''10.1000/xyz'' = ''https://doi.org/10.1000/xyz''
   \<and> create_doi_url [] = []
   \<and> create_doi_url ''invalid'' = []"
  by (simp add: create_doi_url_def startswith_prefix)

end
